theory Spec2Isabelle
  imports Main
begin

section \<open>Strings\<close>

text \<open>
  A JavaScript string is modelled as a \<open>string\<close> (a list of characters); a character
  stands for a code unit below 256.  \<open>whitespace\<close> is the set that
  \<^verbatim>\<open>String.prototype.trim\<close> strips (WhiteSpace and LineTerminator), cut down to this
  range: TAB, LF, VT, FF, CR, SPACE and NBSP.
\<close>

definition whitespace :: "char \<Rightarrow> bool" where
  "whitespace c =
     (c \<in> set [CHR 0x09, CHR 0x0A, CHR 0x0B, CHR 0x0C, CHR 0x0D, CHR 0x20, CHR 0xA0])"

text \<open>\<^verbatim>\<open>s.trim()\<close>: whitespace is removed from both ends.\<close>

definition trim :: "string \<Rightarrow> string" where
  "trim s = rev (dropWhile whitespace (rev (dropWhile whitespace s)))"

text \<open>\<^verbatim>\<open>a || b\<close> on two strings: the empty string is the only falsy one.\<close>

definition js_or :: "string \<Rightarrow> string \<Rightarrow> string" where
  "js_or a b = (if a = [] then b else a)"

section \<open>The prefix tokens\<close>

text \<open>
  The global object \<^verbatim>\<open>prefix\<close> (index.js, lines 57-61).  Its four strings are
  properties that \<^verbatim>\<open>prefix._handleChange\<close> overwrites when the user edits the token
  fields, so every function that reads them takes the record as a parameter;
  \<open>prefix_init\<close> holds the values the object is created with.
\<close>

record prefix =
  branch :: string
  branch_last :: string
  spacer_branch :: string
  spacer_empty :: string

definition prefix_init :: prefix where
  "prefix_init =
     \<lparr>branch = ''|--'', branch_last = CHR 0x5C # ''--'',
      spacer_branch = ''|   '', spacer_empty = ''    ''\<rparr>"

section \<open>The document\<close>

text \<open>
  The tree lives in the page itself.  Every node is a list item (\<^verbatim>\<open>li\<close>) whose first
  element child is a text \<^verbatim>\<open>input\<close> (the label) and whose last element child is either
  that same input (a leaf) or a \<^verbatim>\<open>ul\<close> holding the child items.  The editor only ever
  builds items of this shape (\<^verbatim>\<open>newNode.li\<close>, \<^verbatim>\<open>newNode.input\<close>, \<^verbatim>\<open>newNode.ul\<close>), so
  the shape is the type.

  Of an input the model keeps the value, the placeholder, the flag
  \<^verbatim>\<open>dataset.hasListeners\<close> (set exactly while the hover listeners are registered), the
  click listeners registered on it (each \<^verbatim>\<open>proxy(this._moveBranch, this)\<close> is a new
  function, named here by a number) and the property \<^verbatim>\<open>clickListener\<close> that remembers
  the latest one.  Of an item it keeps the input, \<^verbatim>\<open>className\<close>, \<^verbatim>\<open>dataset.prefix\<close>
  (\<open>None\<close> while undefined) and the \<^verbatim>\<open>ul\<close> (\<open>None\<close> when the item has none; an item whose
  children were all removed keeps an empty \<^verbatim>\<open>ul\<close>).
\<close>

record input =
  ivalue :: string
  placeholder :: string
  hasListeners :: bool
  clickListeners :: "nat list"
  clickListener :: "nat option"

datatype li =
  LI (input_of: input) (className: string) (dataset_prefix: "string option")
     (ul_of: "li list option")

text \<open>\<^verbatim>\<open>newNode.input\<close>, and \<^verbatim>\<open>newNode.li\<close> with that input appended.\<close>

definition newNode_input :: input where
  "newNode_input =
     \<lparr>ivalue = [], placeholder = ''Directory or File Name'', hasListeners = False,
      clickListeners = [], clickListener = None\<rparr>"

definition newNode_li :: li where
  "newNode_li = LI newNode_input [] None None"

text \<open>The element children of an item's \<^verbatim>\<open>ul\<close>; none when there is no \<^verbatim>\<open>ul\<close>.\<close>

definition kids :: "li \<Rightarrow> li list" where
  "kids it = (case ul_of it of None \<Rightarrow> [] | Some ks \<Rightarrow> ks)"

subsection \<open>Element references\<close>

text \<open>
  A JavaScript reference to an item is modelled by where the item stands.  Inside a
  list of items, a non-empty path \<open>[i, j, ...]\<close> names child \<open>j\<close> of the \<^verbatim>\<open>ul\<close> of item
  \<open>i\<close>, and so on.  \<open>item_at\<close> reads the item at a path, \<open>update_at\<close> rewrites it in
  place, \<open>remove_at\<close> is \<^verbatim>\<open>item.parentNode.removeChild(item)\<close> and returns the removed
  item with the remaining list.
\<close>

fun item_at :: "li list \<Rightarrow> nat list \<Rightarrow> li option" where
  "item_at items [] = None"
| "item_at items [i] = (if i < length items then Some (items ! i) else None)"
| "item_at items (i # j # p) =
     (if i < length items then
        (case ul_of (items ! i) of None \<Rightarrow> None | Some ks \<Rightarrow> item_at ks (j # p))
      else None)"

fun update_at :: "(li \<Rightarrow> li) \<Rightarrow> nat list \<Rightarrow> li list \<Rightarrow> li list" where
  "update_at f [] items = items"
| "update_at f [i] items = (if i < length items then items[i := f (items ! i)] else items)"
| "update_at f (i # j # p) items =
     (if i < length items then
        (case items ! i of
           LI inp c d None \<Rightarrow> items
         | LI inp c d (Some ks) \<Rightarrow> items[i := LI inp c d (Some (update_at f (j # p) ks))])
      else items)"

fun remove_at :: "nat list \<Rightarrow> li list \<Rightarrow> (li \<times> li list) option" where
  "remove_at [] items = None"
| "remove_at [i] items =
     (if i < length items then Some (items ! i, take i items @ drop (Suc i) items) else None)"
| "remove_at (i # j # p) items =
     (if i < length items then
        (case items ! i of
           LI inp c d None \<Rightarrow> None
         | LI inp c d (Some ks) \<Rightarrow>
             (case remove_at (j # p) ks of
                None \<Rightarrow> None
              | Some (x, ks') \<Rightarrow> Some (x, items[i := LI inp c d (Some ks')])))
      else None)"

text \<open>
  \<^verbatim>\<open>let ul = item.lastElementChild; if (ul.tagName !== 'UL') item.appendChild(ul =
  newNode.ul); ul.appendChild(x)\<close>, the way \<^verbatim>\<open>addChild\<close> and \<^verbatim>\<open>_moveBranch\<close> append.
\<close>

definition appendChild :: "li \<Rightarrow> li \<Rightarrow> li" where
  "appendChild x it =
     (case it of LI inp c d u \<Rightarrow>
        LI inp c d (Some ((case u of None \<Rightarrow> [] | Some ks \<Rightarrow> ks) @ [x])))"

definition set_className :: "string \<Rightarrow> li \<Rightarrow> li" where
  "set_className c' it = (case it of LI inp c d u \<Rightarrow> LI inp c' d u)"

definition set_dataset_prefix :: "string \<Rightarrow> li \<Rightarrow> li" where
  "set_dataset_prefix pre it = (case it of LI inp c d u \<Rightarrow> LI inp c (Some pre) u)"

definition on_input :: "(input \<Rightarrow> input) \<Rightarrow> li \<Rightarrow> li" where
  "on_input f it = (case it of LI inp c d u \<Rightarrow> LI (f inp) c d u)"

text \<open>\<open>map_inputs f\<close> applies \<open>f\<close> to every input below a list of items
  (\<^verbatim>\<open>querySelectorAll('input')\<close> followed by \<^verbatim>\<open>forEach\<close>).\<close>

fun map_inputs :: "(input \<Rightarrow> input) \<Rightarrow> li list \<Rightarrow> li list" where
  "map_inputs f [] = []"
| "map_inputs f (LI inp c d u # rest) =
     LI (f inp) c d (case u of None \<Rightarrow> None | Some ks \<Rightarrow> Some (map_inputs f ks))
       # map_inputs f rest"

definition map_inputs_li :: "(input \<Rightarrow> input) \<Rightarrow> li \<Rightarrow> li" where
  "map_inputs_li f it =
     (case it of LI inp c d u \<Rightarrow>
        LI (f inp) c d (case u of None \<Rightarrow> None | Some ks \<Rightarrow> Some (map_inputs f ks)))"

section \<open>The prefix algorithm\<close>

text \<open>
  \<^verbatim>\<open>editor._prefix(activeList, depth, processor, spacers = [])\<close> (lines 364-377; the older
  \<^verbatim>\<open>prefixer\<close>, lines 647-660, is the same function).  \<open>u_prefix_for\<close> is its \<^verbatim>\<open>for\<close>
  loop: \<open>l\<close> is \<^verbatim>\<open>items.length\<close>, \<open>i\<close> the loop index and the list argument the items from
  index \<open>i\<close> on.  \<open>here\<close> is the reference of the item that owns \<^verbatim>\<open>activeList\<close> (\<open>[]\<close> for
  \<^verbatim>\<open>#listEntry\<close>), so that \<open>here @ [i]\<close> is the reference handed to the processor together
  with the item as the loop reads it.  The processor's effect is threaded through as
  \<open>s\<close>.  \<^verbatim>\<open>last = i === l - 1\<close> is written \<open>i + 1 = l\<close>, which is the same over the
  integers and avoids the truncated subtraction of \<open>nat\<close>.  \<^verbatim>\<open>spacers.slice()\<close> followed
  by \<^verbatim>\<open>push\<close> builds a new array and leaves \<^verbatim>\<open>spacers\<close> as it was: \<open>spacers @ [x]\<close>.
\<close>

fun u_prefix_for ::
  "prefix \<Rightarrow> (nat list \<Rightarrow> li \<Rightarrow> string \<Rightarrow> 's \<Rightarrow> 's) \<Rightarrow> nat list \<Rightarrow> nat \<Rightarrow> string list \<Rightarrow>
   nat \<Rightarrow> nat \<Rightarrow> li list \<Rightarrow> 's \<Rightarrow> 's" where
  "u_prefix_for pf processor here depth spacers l i [] s = s"
| "u_prefix_for pf processor here depth spacers l i (LI inp c d u # rest) s =
     (let isLast = (i + 1 = l);
          s1 = processor (here @ [i]) (LI inp c d u)
                 (concat spacers @ (if isLast then branch_last pf else branch pf)) s;
          s2 = (case u of
                  None \<Rightarrow> s1
                | Some nextList \<Rightarrow>
                    u_prefix_for pf processor (here @ [i]) (depth + 1)
                      (spacers @ [if isLast then spacer_empty pf else spacer_branch pf])
                      (length nextList) 0 nextList s1)
      in u_prefix_for pf processor here depth spacers l (i + 1) rest s2)"

definition u_prefix ::
  "prefix \<Rightarrow> nat list \<Rightarrow> li list \<Rightarrow> nat \<Rightarrow> (nat list \<Rightarrow> li \<Rightarrow> string \<Rightarrow> 's \<Rightarrow> 's) \<Rightarrow>
   string list \<Rightarrow> 's \<Rightarrow> 's" where
  "u_prefix pf here activeList depth processor spacers s =
     u_prefix_for pf processor here depth spacers (length activeList) 0 activeList s"

text \<open>
  The prefix algorithm with the processor that only records its calls: the reference
  and the prefix string of every item, in the order of the calls.
\<close>

definition computePrefixes :: "prefix \<Rightarrow> li list \<Rightarrow> (nat list \<times> string) list" where
  "computePrefixes pf activeList =
     u_prefix pf [] activeList 0 (\<lambda>item it pre calls. calls @ [(item, pre)]) [] []"

section \<open>The editor\<close>

text \<open>
  A reference held by the editor or handed to one of its methods.  \<open>Null\<close> is
  \<^verbatim>\<open>null\<close>.  \<open>Item p\<close> is the item at path \<open>p\<close> below \<^verbatim>\<open>#listEntry\<close>, and \<open>Item []\<close> is the
  root's own item (\<^verbatim>\<open>root.parentNode\<close>, which holds the input \<^verbatim>\<open>#root\<close> and the list
  \<^verbatim>\<open>#listEntry\<close>).  \<open>Beside p\<close> is an item in the list that \<^verbatim>\<open>addSibling\<close> on the root's
  item appends to: the other element children of the root item's parent, which the
  prefix algorithm never visits.  \<open>Orphan x p\<close> is the item at path \<open>p\<close> inside \<open>x\<close>, where
  \<open>x\<close> has been removed from the document (\<open>Orphan x []\<close> is \<open>x\<close> itself, whose
  \<^verbatim>\<open>parentNode\<close> is \<^verbatim>\<open>null\<close>).  The only reference that outlives a handler is
  \<^verbatim>\<open>editor.activeBranch\<close>, so an orphan is kept inside that reference and nowhere else.

  The markup of the page is not among the sources.  The model takes from it what the
  code relies on: \<^verbatim>\<open>#root\<close> is an input inside \<^verbatim>\<open>#editor\<close>, its parent is an item whose last
  element child is the list \<^verbatim>\<open>#listEntry\<close> (\<^verbatim>\<open>folder._traverse\<close> hands \<^verbatim>\<open>editor.root.parentNode\<close>
  to \<^verbatim>\<open>addChild\<close>), and that item has a parent element of its own.
\<close>

datatype ref = Null | Item "nat list" | Beside "nat list" | Orphan li "nat list"

text \<open>
  The object \<^verbatim>\<open>editor\<close> with the part of the page it works on: the input \<^verbatim>\<open>#root\<close>, the
  class of its item, the children of \<^verbatim>\<open>#listEntry\<close>, the items beside the root's item,
  the class of the context menu and the inline \<^verbatim>\<open>display\<close> of its three guarded entries
  (\<open>None\<close> is \<^verbatim>\<open>null\<close>: not hidden), and the fields \<^verbatim>\<open>delayUpdate\<close>, \<^verbatim>\<open>inMoveState\<close> and
  \<^verbatim>\<open>activeBranch\<close>.  \<open>listenerCount\<close> numbers the click listeners created so far.  The
  hide timer (\<^verbatim>\<open>timeout\<close>) and the menu's position are not modelled.
\<close>

record editor =
  root :: input
  rootClass :: string
  listEntry :: "li list"
  rootSiblings :: "li list"
  menuClass :: string
  addSiblingDisplay :: "string option"
  moveBranchDisplay :: "string option"
  deleteBranchDisplay :: "string option"
  delayUpdate :: bool
  inMoveState :: bool
  activeBranch :: ref
  listenerCount :: nat

text \<open>
  What a method call ends in: it returns, or it throws with the page as it is at
  that moment.  \<open>NoSuchNode\<close> is not an exception of the program: it marks a reference
  that names no item of the state it is used on.  \<open>RootDisplaced\<close> is the end of a call
  that took the root's item out of its place in the document
  (\<^verbatim>\<open>root.parentNode.parentNode.removeChild(root.parentNode)\<close>); the record above has
  no such page, and the model does not follow it further.
\<close>

datatype error = TypeError | HierarchyRequestError | NoSuchNode

datatype 'a result = Returns 'a editor | Throws error editor | RootDisplaced

subsection \<open>Export and rendering\<close>

text \<open>\<^verbatim>\<open>editor.toString()\<close> (lines 158-165; \<^verbatim>\<open>treeToString\<close>, lines 623-630).\<close>

definition toString :: "prefix \<Rightarrow> editor \<Rightarrow> string" where
  "toString pf st =
     trim (u_prefix pf [] (listEntry st) 0
             (\<lambda>item it pre tree.
                tree @ [CHR 0x0A] @ pre @ '' '' @
                  js_or (ivalue (input_of it)) (placeholder (input_of it)))
             [] (js_or (ivalue (root st)) (placeholder (root st))))"

text \<open>
  \<^verbatim>\<open>editor.render()\<close> (lines 170-174): the processor stores the prefix in the item's
  \<^verbatim>\<open>dataset.prefix\<close>.  The loop runs over the items as they are when it starts; the
  processor writes to the page, and it writes nothing that the loop reads.
\<close>

definition render :: "prefix \<Rightarrow> editor \<Rightarrow> editor" where
  "render pf st =
     st\<lparr>listEntry :=
          u_prefix pf [] (listEntry st) 0
            (\<lambda>item it pre dom. update_at (set_dataset_prefix pre) item dom)
            [] (listEntry st)\<rparr>"

subsection \<open>Following a reference\<close>

text \<open>
  The root's item as an item: its input, its class and \<^verbatim>\<open>#listEntry\<close> as its \<^verbatim>\<open>ul\<close>.
  \<open>holder r st\<close> is the list of items in which the tree of \<open>r\<close> stands, with the path of
  \<open>r\<close> in it, and \<open>put_holder\<close> writes such a list back.
\<close>

definition rootItem :: "editor \<Rightarrow> li" where
  "rootItem st = LI (root st) (rootClass st) None (Some (listEntry st))"

fun holder :: "ref \<Rightarrow> editor \<Rightarrow> (li list \<times> nat list) option" where
  "holder Null st = None"
| "holder (Item p) st = Some ([rootItem st], 0 # p)"
| "holder (Beside p) st = Some (rootSiblings st, p)"
| "holder (Orphan x p) st = Some ([x], 0 # p)"

fun put_holder :: "ref \<Rightarrow> li list \<Rightarrow> editor \<Rightarrow> editor" where
  "put_holder Null f st = st"
| "put_holder (Item p) f st =
     (case f of
        [LI inp c d (Some ks)] \<Rightarrow> st\<lparr>root := inp, rootClass := c, listEntry := ks\<rparr>
      | _ \<Rightarrow> st)"
| "put_holder (Beside p) f st = st\<lparr>rootSiblings := f\<rparr>"
| "put_holder (Orphan x p) f st =
     (case f of [x'] \<Rightarrow> st\<lparr>activeBranch := Orphan x' p\<rparr> | _ \<Rightarrow> st)"

text \<open>The same kind of reference at another path of the (rewritten) holder.\<close>

fun at_path :: "ref \<Rightarrow> li list \<Rightarrow> nat list \<Rightarrow> ref" where
  "at_path (Item p) f (i # q) = Item q"
| "at_path (Beside p) f q = Beside q"
| "at_path (Orphan x p) [x'] (i # q) = Orphan x' q"
| "at_path r f q = Null"

definition deref :: "ref \<Rightarrow> editor \<Rightarrow> li option" where
  "deref r st = (case holder r st of None \<Rightarrow> None | Some (f, p) \<Rightarrow> item_at f p)"

definition modify :: "ref \<Rightarrow> (li \<Rightarrow> li) \<Rightarrow> editor \<Rightarrow> editor" where
  "modify r g st =
     (case holder r st of None \<Rightarrow> st | Some (f, p) \<Rightarrow> put_holder r (update_at g p f) st)"

text \<open>The list an item stands in (\<^verbatim>\<open>item.parentNode.children\<close>).\<close>

fun siblings :: "li list \<Rightarrow> nat list \<Rightarrow> li list option" where
  "siblings items [] = None"
| "siblings items [i] = (if i < length items then Some items else None)"
| "siblings items (i # j # p) =
     (if i < length items then
        (case ul_of (items ! i) of None \<Rightarrow> None | Some ks \<Rightarrow> siblings ks (j # p))
      else None)"

text \<open>
  Where a reference points after the item at path \<open>p\<close> has left its list.  \<open>is_under p q\<close>:
  the item at \<open>q\<close> is the item at \<open>p\<close> or stands below it.  \<open>shift p q\<close>: the path of an
  item that stays, which moves up by one where it followed the removed item in the
  same list.  \<open>after_removal b x r\<close>: the value of the reference \<open>r\<close> once the item \<open>x\<close>,
  referenced by \<open>b\<close>, has been removed.
\<close>

definition is_under :: "nat list \<Rightarrow> nat list \<Rightarrow> bool" where
  "is_under p q = (take (length p) q = p)"

fun shift :: "nat list \<Rightarrow> nat list \<Rightarrow> nat list" where
  "shift [] q = q"
| "shift (i # p) [] = []"
| "shift [i] (j # q) = (if i < j then (j - 1) # q else j # q)"
| "shift (i # p) (j # q) = (if i = j then j # shift p q else j # q)"

fun after_removal :: "ref \<Rightarrow> li \<Rightarrow> ref \<Rightarrow> ref" where
  "after_removal (Item p) x (Item q) =
     (if is_under p q then Orphan x (drop (length p) q) else Item (shift p q))"
| "after_removal (Beside p) x (Beside q) =
     (if is_under p q then Orphan x (drop (length p) q) else Beside (shift p q))"
| "after_removal (Orphan y p) x (Orphan z q) =
     (if is_under p q then Orphan x (drop (length p) q) else Orphan z q)"
| "after_removal b x r = r"

subsection \<open>Hover listeners and \<^verbatim>\<open>update\<close>\<close>

text \<open>
  The bodies of the two \<^verbatim>\<open>forEach\<close> loops of \<^verbatim>\<open>_addMenuListeners\<close> (lines 332-342) and
  \<^verbatim>\<open>_removeMenuListeners\<close> (lines 348-358).  Without an argument both work on
  \<^verbatim>\<open>allInputs\<close>, every input inside \<^verbatim>\<open>#editor\<close>: the root's, those below
  \<^verbatim>\<open>#listEntry\<close>, and those beside the root's item.
\<close>

definition addListeners :: "input \<Rightarrow> input" where
  "addListeners node = (if hasListeners node then node else node\<lparr>hasListeners := True\<rparr>)"

definition removeListeners :: "input \<Rightarrow> input" where
  "removeListeners node =
     (if \<not> hasListeners node then node else node\<lparr>hasListeners := False\<rparr>)"

definition on_inputs :: "(input \<Rightarrow> input) \<Rightarrow> ref \<Rightarrow> editor \<Rightarrow> editor" where
  "on_inputs g parent st =
     (case parent of
        Null \<Rightarrow>
          st\<lparr>root := g (root st), listEntry := map_inputs g (listEntry st),
             rootSiblings := map_inputs g (rootSiblings st)\<rparr>
      | _ \<Rightarrow> modify parent (map_inputs_li g) st)"

definition u_addMenuListeners :: "ref \<Rightarrow> editor \<Rightarrow> editor" where
  "u_addMenuListeners parent st = on_inputs addListeners parent st"

definition u_removeMenuListeners :: "ref \<Rightarrow> editor \<Rightarrow> editor" where
  "u_removeMenuListeners parent st = on_inputs removeListeners parent st"

text \<open>\<^verbatim>\<open>editor.update()\<close> (lines 179-183).\<close>

definition update :: "prefix \<Rightarrow> editor \<Rightarrow> editor" where
  "update pf st = (if delayUpdate st then st else render pf (u_addMenuListeners Null st))"

subsection \<open>The operations of the context menu\<close>

text \<open>
  \<^verbatim>\<open>editor.addSibling(branch)\<close> (lines 196-203).  \<^verbatim>\<open>branch.parentNode\<close> throws on
  \<^verbatim>\<open>null\<close>; for an item without a parent it is \<^verbatim>\<open>null\<close>, and \<^verbatim>\<open>ul.appendChild\<close> throws.
  The parent of the root's item is an element of the page, and the new item is
  appended to it like to any other list.  The method returns the new item.
\<close>

definition append_sibling :: "nat list \<Rightarrow> li \<Rightarrow> li list \<Rightarrow> li list" where
  "append_sibling p x f =
     (if butlast p = [] then f @ [x] else update_at (appendChild x) (butlast p) f)"

definition addSibling :: "prefix \<Rightarrow> ref \<Rightarrow> editor \<Rightarrow> ref result" where
  "addSibling pf b st =
     (case b of
        Null \<Rightarrow> Throws TypeError st
      | Orphan x [] \<Rightarrow> Throws TypeError st
      | Item [] \<Rightarrow>
          Returns (Beside [length (rootSiblings st)])
            (update pf (st\<lparr>rootSiblings := rootSiblings st @ [newNode_li]\<rparr>))
      | _ \<Rightarrow>
          (case holder b st of
             None \<Rightarrow> Throws NoSuchNode st
           | Some (f, p) \<Rightarrow>
               (case siblings f p of
                  None \<Rightarrow> Throws NoSuchNode st
                | Some ul \<Rightarrow>
                    (let f' = append_sibling p newNode_li f
                     in Returns (at_path b f' (butlast p @ [length ul]))
                          (update pf (put_holder b f' st))))))"

text \<open>\<^verbatim>\<open>editor.addChild(branch)\<close> (lines 209-219).\<close>

definition addChild :: "prefix \<Rightarrow> ref \<Rightarrow> editor \<Rightarrow> ref result" where
  "addChild pf b st =
     (case holder b st of
        None \<Rightarrow> Throws (if b = Null then TypeError else NoSuchNode) st
      | Some (f, p) \<Rightarrow>
          (case item_at f p of
             None \<Rightarrow> Throws NoSuchNode st
           | Some it \<Rightarrow>
               (let f' = update_at (appendChild newNode_li) p f
                in Returns (at_path b f' (p @ [length (kids it)]))
                     (update pf (put_holder b f' st)))))"

text \<open>
  \<^verbatim>\<open>editor.moveBranch(branch)\<close> (lines 224-229): the editor enters the move state, and
  the hover listeners of every input of the moving branch are removed.
\<close>

definition moveBranch :: "ref \<Rightarrow> editor \<Rightarrow> unit result" where
  "moveBranch b st =
     (let st1 = st\<lparr>inMoveState := True\<rparr>
      in if b = Null then Throws TypeError st1
         else (case deref b st1 of
                 None \<Rightarrow> Throws NoSuchNode st
               | Some it \<Rightarrow>
                   Returns () (u_removeMenuListeners b (modify b (set_className ''moving'') st1))))"

text \<open>\<^verbatim>\<open>editor.deleteBranch(branch)\<close> (lines 234-238).\<close>

definition deleteBranch :: "prefix \<Rightarrow> ref \<Rightarrow> editor \<Rightarrow> unit result" where
  "deleteBranch pf b st =
     (case b of
        Null \<Rightarrow> Throws TypeError st
      | Orphan x [] \<Rightarrow> Throws TypeError st
      | Item [] \<Rightarrow> RootDisplaced
      | _ \<Rightarrow>
          (case holder b st of
             None \<Rightarrow> Throws NoSuchNode st
           | Some (f, p) \<Rightarrow>
               (case remove_at p f of
                  None \<Rightarrow> Throws NoSuchNode st
                | Some (x, f') \<Rightarrow>
                    Returns ()
                      (update pf
                         ((put_holder b f' st)
                            \<lparr>activeBranch := after_removal b x (activeBranch st),
                             menuClass := []\<rparr>)))))"

text \<open>
  \<^verbatim>\<open>editor.clear()\<close> (lines 243-249): while \<^verbatim>\<open>#listEntry\<close> has a child, the first one is
  removed.  \<^verbatim>\<open>clear\<close> does not call \<^verbatim>\<open>update\<close>.
\<close>

function clear :: "editor \<Rightarrow> editor" where
  "clear st =
     (case listEntry st of
        [] \<Rightarrow> st
      | x # children \<Rightarrow>
          clear (st\<lparr>listEntry := children,
                    activeBranch := after_removal (Item [0]) x (activeBranch st)\<rparr>))"
  by pat_completeness auto
termination
  by (relation "measure (\<lambda>st. length (listEntry st))") auto

subsection \<open>Hovering and the move\<close>

text \<open>
  The handlers take the hovered or clicked input as the reference of its item
  (\<^verbatim>\<open>currentTarget.parentNode\<close>); the input with the id \<^verbatim>\<open>root\<close> is the one of \<open>Item []\<close>.

  \<^verbatim>\<open>editor._positionContextMenu(target)\<close> (lines 255-274).
\<close>

definition u_positionContextMenu :: "ref \<Rightarrow> editor \<Rightarrow> editor" where
  "u_positionContextMenu target st =
     (let hide = (if target = Item [] then Some ''none'' else None)
      in st\<lparr>activeBranch := target, addSiblingDisplay := hide, moveBranchDisplay := hide,
            deleteBranchDisplay := hide, menuClass := ''active''\<rparr>)"

text \<open>
  \<^verbatim>\<open>editor._handleBranchMouseOver\<close> (lines 306-313) and
  \<^verbatim>\<open>editor._handleBranchMouseOut\<close> (lines 319-326).  Outside the move state the second
  only starts the timer that hides the menu a second later.
\<close>

definition u_handleBranchMouseOver :: "ref \<Rightarrow> editor \<Rightarrow> editor" where
  "u_handleBranchMouseOver currentTarget st =
     (if inMoveState st then
        (modify currentTarget
           (\<lambda>it. on_input
                   (\<lambda>node. node\<lparr>clickListeners := clickListeners node @ [listenerCount st],
                                clickListener := Some (listenerCount st)\<rparr>)
                   (set_className ''move-destination'' it))
           st)\<lparr>listenerCount := listenerCount st + 1\<rparr>
      else u_positionContextMenu currentTarget st)"

definition u_handleBranchMouseOut :: "ref \<Rightarrow> editor \<Rightarrow> editor" where
  "u_handleBranchMouseOut currentTarget st =
     (if inMoveState st then
        modify currentTarget
          (\<lambda>it. on_input
                  (\<lambda>node. case clickListener node of
                            None \<Rightarrow> node
                          | Some n \<Rightarrow> node\<lparr>clickListeners := remove1 n (clickListeners node)\<rparr>)
                  (set_className [] it))
          st
      else st)"

text \<open>
  \<^verbatim>\<open>editor._moveBranch({ currentTarget })\<close> (lines 288-300; \<^verbatim>\<open>doMoveBranch\<close>, lines
  730-742), the click listener of a destination.  The active branch is removed from
  its parent first.  When the destination is the active branch or stands below it, the
  destination has left the document with it, and \<^verbatim>\<open>ul.appendChild(activeBranch)\<close> is
  refused by the DOM with a \<^verbatim>\<open>HierarchyRequestError\<close> (a node cannot be appended below
  itself); the handler ends there, after the removal and after \<^verbatim>\<open>dest\<close> has been given
  a \<^verbatim>\<open>ul\<close> if it had none.
\<close>

definition ensure_ul :: "li \<Rightarrow> li" where
  "ensure_ul it = (case it of LI inp c d None \<Rightarrow> LI inp c d (Some []) | _ \<Rightarrow> it)"

definition u_moveBranch :: "prefix \<Rightarrow> ref \<Rightarrow> editor \<Rightarrow> unit result" where
  "u_moveBranch pf currentTarget st =
     (case activeBranch st of
        Null \<Rightarrow> Throws TypeError st
      | Orphan y [] \<Rightarrow> Throws TypeError st
      | Item [] \<Rightarrow> RootDisplaced
      | a \<Rightarrow>
          (case holder a st of
             None \<Rightarrow> Throws NoSuchNode st
           | Some (f, p) \<Rightarrow>
               (case remove_at p f of
                  None \<Rightarrow> Throws NoSuchNode st
                | Some (x, f') \<Rightarrow>
                    (let st1 = (put_holder a f' st)\<lparr>activeBranch := Orphan x []\<rparr>
                     in case after_removal a x currentTarget of
                          Orphan y q \<Rightarrow>
                            (case update_at ensure_ul (0 # q) [x] of
                               [x'] \<Rightarrow>
                                 Throws HierarchyRequestError (st1\<lparr>activeBranch := Orphan x' []\<rparr>)
                             | _ \<Rightarrow> Throws NoSuchNode st)
                        | dest \<Rightarrow>
                            (case holder dest st1 of
                               None \<Rightarrow> Throws NoSuchNode st
                             | Some (g, q) \<Rightarrow>
                                 (case item_at g q of
                                    None \<Rightarrow> Throws NoSuchNode st
                                  | Some d \<Rightarrow>
                                      Returns ()
                                        (update pf
                                           ((put_holder dest
                                               (update_at
                                                  (\<lambda>it. set_className []
                                                          (appendChild (set_className [] x) it))
                                                  q g)
                                               st1)
                                              \<lparr>inMoveState := False,
                                               activeBranch :=
                                                 at_path dest g (q @ [length (kids d)])\<rparr>))))))))"

section \<open>Vocabulary of the properties\<close>

text \<open>
  A node below the root is named by its path from \<^verbatim>\<open>#listEntry\<close>; \<open>item_at items p \<noteq> None\<close>
  says that \<open>p\<close> names a node of the tree.  \<open>is_last_child items p\<close>: the node is the last
  element of its parent's child sequence.  \<open>ancestors p\<close>: the proper ancestors of the
  node below the root, the one nearest to the root first.
\<close>

definition is_last_child :: "li list \<Rightarrow> nat list \<Rightarrow> bool" where
  "is_last_child items p =
     (case siblings items p of None \<Rightarrow> False | Some ul \<Rightarrow> last p + 1 = length ul)"

definition ancestors :: "nat list \<Rightarrow> nat list list" where
  "ancestors p = map (\<lambda>k. take k p) [1..<length p]"

text \<open>
  The nodes of a list of items in depth-first pre-order: an item, then the nodes below
  it, then the items after it.  \<open>preorder_from i items\<close> numbers the items from \<open>i\<close>;
  \<open>depths\<close> lists, in the same order, how far below \<^verbatim>\<open>#listEntry\<close> each node stands.
\<close>

fun preorder_from :: "nat \<Rightarrow> li list \<Rightarrow> nat list list" where
  "preorder_from i [] = []"
| "preorder_from i (LI inp c d u # rest) =
     [i] # map ((#) i) (case u of None \<Rightarrow> [] | Some ks \<Rightarrow> preorder_from 0 ks)
       @ preorder_from (i + 1) rest"

definition preorder :: "li list \<Rightarrow> nat list list" where
  "preorder items = preorder_from 0 items"

fun depths :: "li list \<Rightarrow> nat list" where
  "depths [] = []"
| "depths (LI inp c d u # rest) =
     0 # map Suc (case u of None \<Rightarrow> [] | Some ks \<Rightarrow> depths ks) @ depths rest"

text \<open>
  The prefix of the node at a path, read along the path: a spacer for every list the
  path passes through, and the connector in the node's own list.
\<close>

fun prefix_of :: "prefix \<Rightarrow> li list \<Rightarrow> nat list \<Rightarrow> string" where
  "prefix_of pf items [] = []"
| "prefix_of pf items [j] = (if j + 1 = length items then branch_last pf else branch pf)"
| "prefix_of pf items (j # k # q) =
     (if j + 1 = length items then spacer_empty pf else spacer_branch pf)
       @ prefix_of pf (kids (items ! j)) (k # q)"

text \<open>A list of items with every \<^verbatim>\<open>dataset.prefix\<close> erased: what is left is each
  item's input, class and children, in their order.\<close>

fun unprefixed :: "li list \<Rightarrow> li list" where
  "unprefixed [] = []"
| "unprefixed (LI inp c d u # rest) =
     LI inp c None (case u of None \<Rightarrow> None | Some ks \<Rightarrow> Some (unprefixed ks)) # unprefixed rest"

text \<open>\<^verbatim>\<open>input.value || input.placeholder\<close>: the label, or the placeholder when the label
  is empty.  The label of the node at a path (\<open>None\<close> where the path names no node).  The
  export line of a node: the prefix that the prefix algorithm computes for it, a space,
  and its label or placeholder.\<close>

definition label_or_placeholder :: "input \<Rightarrow> string" where
  "label_or_placeholder node = js_or (ivalue node) (placeholder node)"

definition label_at :: "li list \<Rightarrow> nat list \<Rightarrow> string option" where
  "label_at items q = map_option (\<lambda>it. ivalue (input_of it)) (item_at items q)"

definition export_line :: "prefix \<Rightarrow> li list \<Rightarrow> nat list \<Rightarrow> string" where
  "export_line pf items q =
     (case (map_of (computePrefixes pf items) q, item_at items q) of
        (Some pre, Some it) \<Rightarrow> pre @ '' '' @ label_or_placeholder (input_of it)
      | _ \<Rightarrow> [])"

text \<open>
  Texts: the first line; the right-hand half of \<open>trim\<close>; \<open>visible\<close>, some character is
  not whitespace; \<open>single_line\<close>, no line feed.  \<open>all_inputs P\<close>: every input below a list
  of items satisfies \<open>P\<close>.
\<close>

definition first_line :: "string \<Rightarrow> string" where
  "first_line s = takeWhile (\<lambda>c. c \<noteq> CHR 0x0A) s"

definition rtrim :: "string \<Rightarrow> string" where
  "rtrim l = rev (dropWhile whitespace (rev l))"

definition visible :: "string \<Rightarrow> bool" where
  "visible s = (\<exists>c\<in>set s. \<not> whitespace c)"

definition single_line :: "string \<Rightarrow> bool" where
  "single_line s = (CHR 0x0A \<notin> set s)"

fun all_inputs :: "(input \<Rightarrow> bool) \<Rightarrow> li list \<Rightarrow> bool" where
  "all_inputs P [] = True"
| "all_inputs P (LI inp c d u # rest) =
     (P inp \<and> (case u of None \<Rightarrow> True | Some ks \<Rightarrow> all_inputs P ks) \<and> all_inputs P rest)"

text \<open>The page a call returns with (\<open>None\<close> when it throws).\<close>

fun returned_page :: "'a result \<Rightarrow> editor option" where
  "returned_page (Returns v st) = Some st"
| "returned_page (Throws e st) = None"
| "returned_page RootDisplaced = None"

section \<open>Reading an export back\<close>

text \<open>
  The editor has no parser.  The one below reads an export the way the specification
  describes it, by indentation and connector: the text is split at line feeds, the first
  line (the root) is set aside, the depth of every other line is the number of
  four-character spacers (\<^verbatim>\<open>|\<close> or a space, followed by three spaces) it starts with, and
  a line of depth \<open>d\<close> becomes the new last child at depth \<open>d\<close> below the last node read so
  far.  A \<open>shape\<close> is a node without its label: the parent/child relation and the order
  of the children, nothing else.
\<close>

datatype shape = Shape "shape list"

fun shape_of :: "li list \<Rightarrow> shape list" where
  "shape_of [] = []"
| "shape_of (LI inp c d u # rest) =
     Shape (case u of None \<Rightarrow> [] | Some ks \<Rightarrow> shape_of ks) # shape_of rest"

fun split_lines :: "string \<Rightarrow> string list" where
  "split_lines [] = [[]]"
| "split_lines (c # s) =
     (if c = CHR 0x0A then [] # split_lines s
      else (case split_lines s of [] \<Rightarrow> [[c]] | l # ls \<Rightarrow> (c # l) # ls))"

fun depth_of :: "string \<Rightarrow> nat" where
  "depth_of (a # b # c # d # s) =
     (if [a, b, c, d] = ''|   '' \<or> [a, b, c, d] = ''    '' then Suc (depth_of s) else 0)"
| "depth_of s = 0"

fun insert_at :: "nat \<Rightarrow> shape list \<Rightarrow> shape list" where
  "insert_at 0 f = f @ [Shape []]"
| "insert_at (Suc d) f =
     (case rev f of [] \<Rightarrow> f | Shape ks # r \<Rightarrow> rev r @ [Shape (insert_at d ks)])"

definition parse_export :: "string \<Rightarrow> shape list" where
  "parse_export s = foldl (\<lambda>f d. insert_at d f) [] (map depth_of (tl (split_lines s)))"

section \<open>Example pages\<close>

text \<open>The example of the specification: \<^verbatim>\<open>project\<close> with \<^verbatim>\<open>src\<close> (holding
  \<^verbatim>\<open>index.js\<close>) and \<^verbatim>\<open>README.md\<close>, built from the editor's own new nodes.\<close>

definition labelled :: "string \<Rightarrow> li" where
  "labelled s = LI (newNode_input\<lparr>ivalue := s\<rparr>) [] None None"

definition project_tree :: "li list" where
  "project_tree =
     [appendChild (labelled ''index.js'') (labelled ''src''), labelled ''README.md'']"

definition project_page :: editor where
  "project_page =
     \<lparr>root = newNode_input\<lparr>ivalue := ''project'', placeholder := ''Root Directory''\<rparr>,
      rootClass = [], listEntry = project_tree, rootSiblings = [], menuClass = [],
      addSiblingDisplay = None, moveBranchDisplay = None, deleteBranchDisplay = None,
      delayUpdate = False, inMoveState = False, activeBranch = Null, listenerCount = 0\<rparr>"

text \<open>Two leaves \<^verbatim>\<open>a\<close> and \<^verbatim>\<open>b\<close>.  Two pages with one export: a root whose label is a
  single space above these leaves, and a root labelled \<^verbatim>\<open>|-- a\<close> above the leaf \<^verbatim>\<open>b\<close>.\<close>

definition two_leaves :: "li list" where
  "two_leaves = [labelled ''a'', labelled ''b'']"

definition blank_root_page :: editor where
  "blank_root_page =
     project_page\<lparr>root := (root project_page)\<lparr>ivalue := '' ''\<rparr>, listEntry := two_leaves\<rparr>"

definition pipe_root_page :: editor where
  "pipe_root_page =
     project_page\<lparr>root := (root project_page)\<lparr>ivalue := ''|-- a''\<rparr>, listEntry := [labelled ''b'']\<rparr>"

text \<open>
  A session on the page with the two leaves, each state named after the handlers that
  have run.  \<open>move_start\<close>: the page after \<^verbatim>\<open>editor.init()\<close>.  \<open>move_armed\<close>: the pointer
  has entered the input of \<^verbatim>\<open>a\<close> (the menu opens on it), the menu entry \<^verbatim>\<open>moveBranch\<close> has
  been clicked, and the pointer has entered the input of \<^verbatim>\<open>b\<close>.  \<open>move_done\<close>: the input of
  \<^verbatim>\<open>b\<close> has been clicked, which runs \<^verbatim>\<open>_moveBranch\<close> and puts \<^verbatim>\<open>a\<close> below \<^verbatim>\<open>b\<close>.
  \<open>move_hover_again\<close>: the pointer has left the input of \<^verbatim>\<open>b\<close> (now the first item) and
  entered it again.
\<close>

definition move_start :: editor where
  "move_start = update prefix_init (project_page\<lparr>listEntry := two_leaves\<rparr>)"

definition move_armed :: editor where
  "move_armed =
     u_handleBranchMouseOver (Item [1])
       (case moveBranch (Item [0]) (u_handleBranchMouseOver (Item [0]) move_start) of
          Returns u st \<Rightarrow> st | Throws e st \<Rightarrow> st | RootDisplaced \<Rightarrow> move_start)"

definition move_done :: editor where
  "move_done =
     (case u_moveBranch prefix_init (Item [1]) move_armed of
        Returns u st \<Rightarrow> st | Throws e st \<Rightarrow> st | RootDisplaced \<Rightarrow> move_armed)"

definition move_hover_again :: editor where
  "move_hover_again = u_handleBranchMouseOver (Item [0]) (u_handleBranchMouseOut (Item [0]) move_done)"

section \<open>The prefix algorithm as a traversal\<close>

lemma preorder_from_nonempty: "q \<in> set (preorder_from i items) \<Longrightarrow> q \<noteq> []"
  by (induction i items rule: preorder_from.induct) (auto split: option.splits)

lemma drop_Cons_nth: "drop i full = x # rest \<Longrightarrow> i < length full \<and> full ! i = x \<and> drop (Suc i) full = rest"
  by (metis Cons_nth_drop_Suc drop_eq_Nil list.distinct(1) list.inject not_le)

lemma item_at_Nil: "item_at [] q = None"
  by (induction "[]::li list" q rule: item_at.induct) auto

lemma item_at_Cons: "k < length items \<Longrightarrow> q \<noteq> [] \<Longrightarrow> item_at items (k # q) = item_at (kids (items ! k)) q"
  by (cases q) (auto simp: kids_def item_at_Nil split: option.splits)

lemma prefix_of_Cons: "q \<noteq> [] \<Longrightarrow> prefix_of pf items (j # q) =
     (if j + 1 = length items then spacer_empty pf else spacer_branch pf) @ prefix_of pf (kids (items ! j)) q"
  by (cases q) auto

lemma foldl_map_paths:
  "foldl g s (map h qs) = foldl (\<lambda>s q. g s (h q)) s qs"
  by (induction qs arbitrary: s) auto

lemma u_prefix_for_fold:
  "items = drop i full \<Longrightarrow> l = length full \<Longrightarrow>
   u_prefix_for pf processor here depth spacers l i items s =
   foldl (\<lambda>s q. processor (here @ q) (the (item_at full q)) (concat spacers @ prefix_of pf full q) s) s
     (preorder_from i items)"
proof (induction pf processor here depth spacers l i items s arbitrary: full rule: u_prefix_for.induct)
  case (1 pf processor here depth spacers l i s)
  then show ?case by simp
next
  case (2 pf processor here depth spacers l i inp c d u rest s)
  let ?x = "LI inp c d u"
  let ?g = "\<lambda>s q. processor (here @ q) (the (item_at full q)) (concat spacers @ prefix_of pf full q) s"
  let ?seg = "if i + 1 = l then spacer_empty pf else spacer_branch pf"
  from "2.prems" have ix: "i < length full" "full ! i = ?x" "drop (Suc i) full = rest"
    using drop_Cons_nth[of i full ?x rest] by auto
  let ?s1 = "processor (here @ [i]) ?x (concat spacers @ (if i + 1 = l then branch_last pf else branch pf)) s"
  have s1: "?g s [i] = ?s1" using ix "2.prems" by simp
  let ?s2 = "case u of None \<Rightarrow> ?s1
     | Some nextList \<Rightarrow> u_prefix_for pf processor (here @ [i]) (depth + 1) (spacers @ [?seg]) (length nextList) 0 nextList ?s1"
  have s2: "?s2 = foldl ?g ?s1 (map ((#) i) (case u of None \<Rightarrow> [] | Some ks \<Rightarrow> preorder_from 0 ks))"
  proof (cases u)
    case None
    then show ?thesis by simp
  next
    case (Some ks)
    have "u_prefix_for pf processor (here @ [i]) (depth + 1) (spacers @ [?seg]) (length ks) 0 ks ?s1
       = foldl (\<lambda>s q. processor ((here @ [i]) @ q) (the (item_at ks q)) (concat (spacers @ [?seg]) @ prefix_of pf ks q) s) ?s1
           (preorder_from 0 ks)"
      using "2.IH"(1)[OF refl refl Some, of ks] by simp
    also have "\<dots> = foldl (\<lambda>s q. ?g s (i # q)) ?s1 (preorder_from 0 ks)"
    proof (rule foldl_cong[OF refl refl])
      fix a q assume "q \<in> set (preorder_from 0 ks)"
      then have ne: "q \<noteq> []" by (rule preorder_from_nonempty)
      have k: "kids (full ! i) = ks" using ix Some by (simp add: kids_def)
      show "processor ((here @ [i]) @ q) (the (item_at ks q)) (concat (spacers @ [?seg]) @ prefix_of pf ks q) a
          = ?g a (i # q)"
        using ne ix k "2.prems" by (simp add: item_at_Cons prefix_of_Cons)
    qed
    finally show ?thesis using Some by (simp add: foldl_map_paths)
  qed
  have rest: "u_prefix_for pf processor here depth spacers l (i + 1) rest ?s2
      = foldl ?g ?s2 (preorder_from (i + 1) rest)"
    using "2.IH"(2)[OF refl refl refl, of full] ix "2.prems" by simp
  have "u_prefix_for pf processor here depth spacers l i (?x # rest) s
      = u_prefix_for pf processor here depth spacers l (i + 1) rest ?s2"
    by (simp only: u_prefix_for.simps Let_def)
  also have "\<dots> = foldl ?g ?s2 (preorder_from (i + 1) rest)"
    by (rule rest)
  also have "\<dots> = foldl ?g (foldl ?g (?g s [i])
        (map ((#) i) (case u of None \<Rightarrow> [] | Some ks \<Rightarrow> preorder_from 0 ks)))
        (preorder_from (i + 1) rest)"
    by (simp only: s1 s2)
  also have "\<dots> = foldl ?g s (preorder_from i (?x # rest))"
    by (simp only: preorder_from.simps foldl_append foldl_Cons append_Cons append_Nil)
  finally show ?case .
qed

lemma foldl_snoc_map: "foldl (\<lambda>acc q. acc @ [g q]) acc qs = acc @ map g qs"
  by (induction qs arbitrary: acc) auto

lemma foldl_append_concat: "foldl (\<lambda>acc q. acc @ g q) acc qs = acc @ concat (map g qs)"
  by (induction qs arbitrary: acc) auto

lemma computePrefixes_eq:
  "computePrefixes pf items = map (\<lambda>q. (q, prefix_of pf items q)) (preorder_from 0 items)"
  unfolding computePrefixes_def u_prefix_def
  by (subst u_prefix_for_fold[where full = items]) (simp_all add: foldl_snoc_map)

lemma item_at_Cons_Suc: "item_at (x # rest) (Suc j # r) = item_at rest (j # r)"
  by (cases r) auto

lemma item_at_Cons_0: "r \<noteq> [] \<Longrightarrow> item_at (LI inp c d u # rest) (0 # r) = (case u of None \<Rightarrow> None | Some ks \<Rightarrow> item_at ks r)"
  by (cases r) auto

lemma in_preorder_iff:
  "q \<in> set (preorder_from i items) \<longleftrightarrow> (\<exists>j r. q = (i + j) # r \<and> item_at items (j # r) \<noteq> None)"
proof (induction i items arbitrary: q rule: preorder_from.induct)
  case (1 i)
  then show ?case by (simp add: item_at_Nil)
next
  case (2 i inp c d u rest)
  let ?x = "LI inp c d u"
  have A: "(\<exists>j r. q = (i + j) # r \<and> item_at (?x # rest) (j # r) \<noteq> None) \<longleftrightarrow>
        q = [i] \<or> (\<exists>r. r \<noteq> [] \<and> q = i # r \<and> item_at (?x # rest) (0 # r) \<noteq> None)
          \<or> (\<exists>j r. q = (i + 1 + j) # r \<and> item_at rest (j # r) \<noteq> None)"
    (is "?L \<longleftrightarrow> ?R")
  proof
    assume ?L
    then obtain j r where jr: "q = (i + j) # r" "item_at (?x # rest) (j # r) \<noteq> None" by blast
    show ?R
    proof (cases j)
      case 0
      then show ?thesis using jr by (cases r) auto
    next
      case (Suc j')
      then show ?thesis using jr by (auto simp: item_at_Cons_Suc)
    qed
  next
    assume ?R
    then show ?L
    proof (elim disjE exE conjE)
      assume "q = [i]"
      then have "q = (i + 0) # [] \<and> item_at (?x # rest) (0 # []) \<noteq> None" by simp
      then show ?L by blast
    next
      fix r assume "r \<noteq> []" "q = i # r" "item_at (?x # rest) (0 # r) \<noteq> None"
      then have "q = (i + 0) # r \<and> item_at (?x # rest) (0 # r) \<noteq> None" by simp
      then show ?L by blast
    next
      fix j r assume "q = (i + 1 + j) # r" "item_at rest (j # r) \<noteq> None"
      then have "q = (i + Suc j) # r \<and> item_at (?x # rest) (Suc j # r) \<noteq> None"
        by (simp add: item_at_Cons_Suc)
      then show ?L by blast
    qed
  qed
  have B: "(\<exists>r. r \<noteq> [] \<and> q = i # r \<and> item_at (?x # rest) (0 # r) \<noteq> None)
      \<longleftrightarrow> q \<in> set (map ((#) i) (case u of None \<Rightarrow> [] | Some ks \<Rightarrow> preorder_from 0 ks))"
  proof (cases u)
    case None
    then show ?thesis by (auto simp: item_at_Cons_0 cong: conj_cong)
  next
    case (Some ks)
    have "r \<in> set (preorder_from 0 ks) \<longleftrightarrow> r \<noteq> [] \<and> item_at ks r \<noteq> None" for r
      unfolding "2.IH"(1)[OF Some] by (cases r) auto
    then show ?thesis using Some by (auto simp: item_at_Cons_0 cong: conj_cong)
  qed
  show ?case
    unfolding A using B "2.IH"(2) by auto
qed

lemma valid_in_preorder: "item_at items q \<noteq> None \<longleftrightarrow> q \<in> set (preorder_from 0 items)"
  unfolding in_preorder_iff by (cases q) auto

lemma map_of_computePrefixes:
  "item_at items q \<noteq> None \<Longrightarrow> map_of (computePrefixes pf items) q = Some (prefix_of pf items q)"
  unfolding computePrefixes_eq valid_in_preorder
  by (simp add: map_of_map_restrict)

lemma ancestors_single: "ancestors [j] = []"
  by (simp add: ancestors_def)

lemma ancestors_Cons: "q \<noteq> [] \<Longrightarrow> ancestors (j # q) = [j] # map ((#) j) (ancestors q)"
proof -
  assume "q \<noteq> []"
  then have l: "1 < Suc (length q)" by (cases q) auto
  have "[1..<Suc (length q)] = 1 # [Suc 1..<Suc (length q)]"
    using l by (rule upt_conv_Cons)
  also have "[Suc 1..<Suc (length q)] = map Suc [1..<length q]"
    by (rule map_Suc_upt[symmetric])
  finally show ?thesis by (simp add: ancestors_def comp_def del: upt_Suc)
qed

lemma ancestors_nonempty: "a \<in> set (ancestors q) \<Longrightarrow> a \<noteq> []"
  by (auto simp: ancestors_def)

lemma siblings_Cons: "q \<noteq> [] \<Longrightarrow> j < length items \<Longrightarrow>
   siblings items (j # q) = (case ul_of (items ! j) of None \<Rightarrow> None | Some ks \<Rightarrow> siblings ks q)"
  by (cases q) auto

lemma siblings_Nil: "siblings [] q = None"
  by (induction "[]::li list" q rule: siblings.induct) auto

lemma is_last_child_Cons: "q \<noteq> [] \<Longrightarrow> j < length items \<Longrightarrow>
   is_last_child items (j # q) = is_last_child (kids (items ! j)) q"
  by (auto simp: is_last_child_def siblings_Cons kids_def siblings_Nil split: option.splits)

lemma is_last_child_single: "j < length items \<Longrightarrow> is_last_child items [j] = (j + 1 = length items)"
  by (simp add: is_last_child_def)

lemma prefix_of_closed:
  "item_at items p \<noteq> None \<Longrightarrow>
   prefix_of pf items p =
     concat (map (\<lambda>a. if is_last_child items a then spacer_empty pf else spacer_branch pf) (ancestors p))
       @ (if is_last_child items p then branch_last pf else branch pf)"
proof (induction pf items p rule: prefix_of.induct)
  case (1 pf items)
  then show ?case by simp
next
  case (2 pf items j)
  then show ?case by (simp add: ancestors_single is_last_child_single split: if_splits)
next
  case (3 pf items j k q)
  from "3.prems" have j: "j < length items" by (simp split: if_splits)
  from "3.prems" j have v: "item_at (kids (items ! j)) (k # q) \<noteq> None"
    by (auto simp: kids_def split: option.splits)
  have m: "map (\<lambda>a. if is_last_child items a then spacer_empty pf else spacer_branch pf)
             (map ((#) j) (ancestors (k # q)))
         = map (\<lambda>a. if is_last_child (kids (items ! j)) a then spacer_empty pf else spacer_branch pf)
             (ancestors (k # q))"
    using j by (auto simp: is_last_child_Cons dest: ancestors_nonempty)
  have "prefix_of pf items (j # k # q)
      = (if j + 1 = length items then spacer_empty pf else spacer_branch pf)
          @ prefix_of pf (kids (items ! j)) (k # q)"
    by simp
  also note "3.IH"[OF v]
  also note m[symmetric]
  finally show ?case
    using j by (simp add: ancestors_Cons is_last_child_single is_last_child_Cons del: map_map)
qed

lemma toString_readme:
  assumes "ivalue (root st) = ''project''"
    and "map (\<lambda>it. (ivalue (input_of it), ul_of it)) (listEntry st) = [(''README.md'', None)]"
  shows "toString prefix_init st = ''project'' @ [CHR 0x0A] @ (CHR 0x5C # ''-- README.md'')"
proof -
  from assms(2) obtain inp c d where l: "listEntry st = [LI inp c d None]" "ivalue inp = ''README.md''"
    by (cases "listEntry st"; cases "hd (listEntry st)") auto
  show ?thesis
    using assms(1) l
    by (simp add: toString_def u_prefix_def js_or_def prefix_init_def trim_def whitespace_def)
qed

lemma clear_fields:
  "listEntry (clear st) = [] \<and> root (clear st) = root st \<and> rootClass (clear st) = rootClass st
   \<and> rootSiblings (clear st) = rootSiblings st"
proof (induction st rule: clear.induct)
  case (1 st)
  show ?case
  proof (cases "listEntry st")
    case Nil
    then show ?thesis by (subst clear.simps, simp)+
  next
    case (Cons x children)
    then show ?thesis
      using "1.IH"[OF Cons] by (subst (1 2 3 4) clear.simps) simp
  qed
qed

section \<open>Rendering and export\<close>

lemma length_unprefixed: "length (unprefixed items) = length items"
  by (induction items rule: unprefixed.induct) auto

lemma unprefixed_nth:
  "i < length items \<Longrightarrow> unprefixed items ! i = hd (unprefixed [items ! i])"
proof (induction items arbitrary: i rule: unprefixed.induct)
  case 1
  then show ?case by simp
next
  case (2 inp c d u rest)
  then show ?case by (cases i) auto
qed

lemma unprefixed_list_update:
  "i < length items \<Longrightarrow> unprefixed (items[i := x]) = (unprefixed items)[i := hd (unprefixed [x])]"
proof (induction items arbitrary: i rule: unprefixed.induct)
  case 1
  then show ?case by simp
next
  case (2 inp c d u rest)
  then show ?case by (cases i; cases x) auto
qed

lemma ul_of_unprefixed_nth:
  "i < length items \<Longrightarrow>
   ul_of (unprefixed items ! i) = map_option unprefixed (ul_of (items ! i))"
  by (cases "items ! i") (auto simp: unprefixed_nth split: option.splits)

lemma kids_unprefixed_nth:
  "i < length items \<Longrightarrow> kids (unprefixed items ! i) = unprefixed (kids (items ! i))"
  by (simp add: kids_def ul_of_unprefixed_nth split: option.splits)

lemma unprefixed_update_at:
  "unprefixed (update_at (set_dataset_prefix pre) q doc) = unprefixed doc"
proof (induction "set_dataset_prefix pre" q doc rule: update_at.induct)
  case (1 items)
  then show ?case by simp
next
  case (2 i items)
  show ?case
  proof (cases "i < length items")
    case True
    have "hd (unprefixed [set_dataset_prefix pre (items ! i)]) = unprefixed items ! i"
      using True by (cases "items ! i") (auto simp: unprefixed_nth set_dataset_prefix_def)
    then show ?thesis using True by (simp add: unprefixed_list_update)
  next
    case False
    then show ?thesis by simp
  qed
next
  case (3 i j p items)
  show ?case
  proof (cases "i < length items")
    case True
    obtain inp c d u where x: "items ! i = LI inp c d u" by (cases "items ! i")
    show ?thesis
    proof (cases u)
      case None
      then show ?thesis using True x by simp
    next
      case (Some ks)
      have "unprefixed (update_at (set_dataset_prefix pre) (j # p) ks) = unprefixed ks"
        using "3.hyps"[OF True x Some] .
      then have "hd (unprefixed [LI inp c d (Some (update_at (set_dataset_prefix pre) (j # p) ks))])
            = unprefixed items ! i"
        using True x Some by (simp add: unprefixed_nth)
      then show ?thesis using True x Some by (simp add: unprefixed_list_update)
    qed
  next
    case False
    then show ?thesis by simp
  qed
qed

lemma preorder_from_unprefixed: "preorder_from i (unprefixed items) = preorder_from i items"
  by (induction i items rule: preorder_from.induct) (auto split: option.splits)

lemma item_at_unprefixed:
  "item_at (unprefixed items) q = map_option (\<lambda>it. hd (unprefixed [it])) (item_at items q)"
proof (induction items q rule: item_at.induct)
  case (1 items)
  then show ?case by simp
next
  case (2 items i)
  then show ?case by (simp add: length_unprefixed unprefixed_nth)
next
  case (3 items i j p)
  then show ?case
    by (auto simp: length_unprefixed ul_of_unprefixed_nth split: option.splits)
qed

lemma prefix_of_unprefixed:
  "item_at items q \<noteq> None \<Longrightarrow> prefix_of pf (unprefixed items) q = prefix_of pf items q"
proof (induction pf items q rule: prefix_of.induct)
  case (1 pf items)
  then show ?case by simp
next
  case (2 pf items j)
  then show ?case by (simp add: length_unprefixed)
next
  case (3 pf items j k q)
  from "3.prems" have j: "j < length items" by (simp split: if_splits)
  from "3.prems" j have v: "item_at (kids (items ! j)) (k # q) \<noteq> None"
    by (auto simp: kids_def split: option.splits)
  show ?case using "3.IH"[OF v] j by (simp add: length_unprefixed kids_unprefixed_nth)
qed

lemma computePrefixes_unprefixed:
  "computePrefixes pf (unprefixed items) = computePrefixes pf items"
  unfolding computePrefixes_eq preorder_from_unprefixed
  by (rule map_cong[OF refl]) (simp add: prefix_of_unprefixed valid_in_preorder[symmetric])

lemma computePrefixes_cong:
  "unprefixed a = unprefixed b \<Longrightarrow> computePrefixes pf a = computePrefixes pf b"
  by (metis computePrefixes_unprefixed)

lemma render_fold:
  "listEntry (render pf st) =
     foldl (\<lambda>doc q. update_at (set_dataset_prefix (prefix_of pf (listEntry st) q)) q doc)
       (listEntry st) (preorder_from 0 (listEntry st))"
  unfolding render_def u_prefix_def
  by (simp add: u_prefix_for_fold[where full = "listEntry st"])

lemma unprefixed_foldl:
  "unprefixed (foldl (\<lambda>doc q. update_at (set_dataset_prefix (g q)) q doc) doc qs) = unprefixed doc"
  by (induction qs arbitrary: doc) (auto simp: unprefixed_update_at)

lemma unprefixed_render: "unprefixed (listEntry (render pf st)) = unprefixed (listEntry st)"
  by (simp add: render_fold unprefixed_foldl)

lemma export_line_eq:
  "item_at items q \<noteq> None \<Longrightarrow>
   export_line pf items q =
     prefix_of pf items q @ '' '' @ label_or_placeholder (input_of (the (item_at items q)))"
  by (auto simp: export_line_def map_of_computePrefixes)

lemma toString_fold:
  "toString pf st =
     trim (label_or_placeholder (root st)
           @ concat (map (\<lambda>q. CHR 0x0A # export_line pf (listEntry st) q) (preorder (listEntry st))))"
proof -
  have "concat (map (\<lambda>q. CHR 0x0A # prefix_of pf (listEntry st) q @ '' '' @
                      label_or_placeholder (input_of (the (item_at (listEntry st) q))))
                  (preorder_from 0 (listEntry st)))
      = concat (map (\<lambda>q. CHR 0x0A # export_line pf (listEntry st) q) (preorder_from 0 (listEntry st)))"
    by (rule arg_cong[where f = concat], rule map_cong[OF refl])
       (simp add: export_line_eq valid_in_preorder[symmetric])
  then show ?thesis
    unfolding toString_def u_prefix_def preorder_def
    by (simp add: u_prefix_for_fold[where full = "listEntry st"] foldl_append_concat
          label_or_placeholder_def)
qed

lemma trim_no_trailing: "trim s = [] \<or> \<not> whitespace (last (trim s))"
proof (cases "trim s = []")
  case True
  then show ?thesis by simp
next
  case False
  then have ne: "dropWhile whitespace (rev (dropWhile whitespace s)) \<noteq> []"
    by (simp add: trim_def)
  then have "\<not> whitespace (hd (dropWhile whitespace (rev (dropWhile whitespace s))))"
    by (rule hd_dropWhile)
  then show ?thesis using ne by (simp add: trim_def last_rev)
qed

lemma trim_no_leading: "trim s = [] \<or> \<not> whitespace (hd (trim s))"
proof (cases "dropWhile whitespace s = []")
  case True
  show ?thesis unfolding trim_def True by simp
next
  case False
  then have h: "\<not> whitespace (hd (dropWhile whitespace s))" by (rule hd_dropWhile)
  obtain c r where cr: "dropWhile whitespace s = c # r" using False by (cases "dropWhile whitespace s") auto
  with h have c: "\<not> whitespace c" by simp
  have "dropWhile whitespace (rev r @ [c]) = dropWhile whitespace (rev r) @ [c]"
    using c by (simp add: dropWhile_append3)
  then have "trim s = c # rev (dropWhile whitespace (rev r))"
    unfolding trim_def cr by simp
  then show ?thesis using c by simp
qed

lemma path_cases [case_names Root Single Deeper]:
  "(q = [] \<Longrightarrow> P) \<Longrightarrow> (\<And>j. q = [j] \<Longrightarrow> P) \<Longrightarrow> (\<And>j k r. q = j # k # r \<Longrightarrow> P) \<Longrightarrow> P"
  by (cases q; cases "tl q") auto

lemma dataset_prefix_update_at:
  "map_option dataset_prefix (item_at (update_at (set_dataset_prefix pre) q1 doc) q) =
     (if q = q1 \<and> item_at doc q \<noteq> None then Some (Some pre)
      else map_option dataset_prefix (item_at doc q))"
proof (induction "set_dataset_prefix pre" q1 doc arbitrary: q rule: update_at.induct)
  case (1 items)
  then show ?case by simp
next
  case (2 i items)
  show ?case
  proof (cases q rule: path_cases)
    case Root
    then show ?thesis by simp
  next
    case (Single j)
    then show ?thesis
      by (cases "items ! i") (auto simp: nth_list_update set_dataset_prefix_def)
  next
    case (Deeper j k r)
    then show ?thesis
      by (cases "items ! i") (auto simp: nth_list_update set_dataset_prefix_def split: option.splits)
  qed
next
  case (3 i j p items)
  show ?case
  proof (cases "i < length items")
    case False
    then show ?thesis by simp
  next
    case True
    obtain inp c d u where x: "items ! i = LI inp c d u" by (cases "items ! i")
    show ?thesis
    proof (cases u)
      case None
      then show ?thesis using True x by (auto split: option.splits)
    next
      case (Some ks)
      note IH = "3.hyps"[OF True x Some]
      show ?thesis
      proof (cases q rule: path_cases)
        case Root
        then show ?thesis by simp
      next
        case (Single j')
        then show ?thesis using True x Some by (auto simp: nth_list_update)
      next
        case (Deeper j' k r)
        then show ?thesis using True x Some IH[of "k # r"]
          by (auto simp: nth_list_update split: option.splits)
      qed
    qed
  qed
qed

lemma update_at_id:
  "item_at doc q = Some it \<Longrightarrow> g it = it \<Longrightarrow> update_at g q doc = doc"
proof (induction g q doc rule: update_at.induct)
  case (1 f items)
  then show ?case by simp
next
  case (2 f i items)
  then show ?case by (auto split: if_splits)
next
  case (3 f i j p items)
  then show ?case
    by (cases "items ! i") (auto split: if_splits option.splits simp: list_update_same_conv)
qed

lemma foldl_fixed: "(\<And>q. q \<in> set qs \<Longrightarrow> g x q = x) \<Longrightarrow> foldl g x qs = x"
  by (induction qs) auto

lemma item_at_valid_unprefixed:
  "unprefixed a = unprefixed b \<Longrightarrow> item_at a q \<noteq> None \<longleftrightarrow> item_at b q \<noteq> None"
  by (metis item_at_unprefixed option.map_disc_iff)

lemma dataset_prefix_foldl:
  "map_option dataset_prefix (item_at (foldl (\<lambda>doc q. update_at (set_dataset_prefix (g q)) q doc) doc qs) q) =
     (if q \<in> set qs \<and> item_at doc q \<noteq> None then Some (Some (g q))
      else map_option dataset_prefix (item_at doc q))"
proof (induction qs arbitrary: doc)
  case Nil
  then show ?case by simp
next
  case (Cons q1 qs)
  have v: "item_at (update_at (set_dataset_prefix (g q1)) q1 doc) q \<noteq> None \<longleftrightarrow> item_at doc q \<noteq> None"
    by (rule item_at_valid_unprefixed) (rule unprefixed_update_at)
  show ?case
    using Cons.IH[of "update_at (set_dataset_prefix (g q1)) q1 doc"] v
    by (auto simp: dataset_prefix_update_at)
qed

lemma prefix_of_cong:
  assumes "unprefixed a = unprefixed b" "item_at a q \<noteq> None"
  shows "prefix_of pf a q = prefix_of pf b q"
proof -
  have "item_at b q \<noteq> None" using assms item_at_valid_unprefixed by blast
  then show ?thesis using assms prefix_of_unprefixed[of a q pf] prefix_of_unprefixed[of b q pf] by simp
qed

lemma render_render: "render pf (render pf st) = render pf st"
proof -
  let ?full = "listEntry st"
  let ?R = "listEntry (render pf st)"
  have u: "unprefixed ?R = unprefixed ?full" by (rule unprefixed_render)
  have po: "preorder_from 0 ?R = preorder_from 0 ?full"
    by (metis preorder_from_unprefixed u)
  have fixd: "update_at (set_dataset_prefix (prefix_of pf ?R q)) q ?R = ?R"
    if q: "q \<in> set (preorder_from 0 ?full)" for q
  proof -
    have vf: "item_at ?full q \<noteq> None" using q valid_in_preorder[of ?full q] by simp
    then have vR: "item_at ?R q \<noteq> None" using u item_at_valid_unprefixed by blast
    then obtain it where it: "item_at ?R q = Some it" by auto
    have pp: "prefix_of pf ?R q = prefix_of pf ?full q"
      using prefix_of_cong[OF u vR] .
    have "map_option dataset_prefix (item_at ?R q) = Some (Some (prefix_of pf ?full q))"
      unfolding render_fold using q vf by (simp add: dataset_prefix_foldl)
    then have "dataset_prefix it = Some (prefix_of pf ?full q)" using it by simp
    then have "set_dataset_prefix (prefix_of pf ?R q) it = it"
      unfolding pp by (cases it) (simp add: set_dataset_prefix_def)
    then show ?thesis using it by (rule update_at_id[rotated])
  qed
  have "listEntry (render pf (render pf st)) = ?R"
    unfolding render_fold[of pf "render pf st"] po
    by (rule foldl_fixed) (rule fixd)
  moreover have "render pf (render pf st) = (render pf st)\<lparr>listEntry := listEntry (render pf (render pf st))\<rparr>"
    by (simp add: render_def)
  ultimately show ?thesis by simp
qed

lemma toString_cong:
  assumes "root a = root b" "unprefixed (listEntry a) = unprefixed (listEntry b)"
  shows "toString pf a = toString pf b"
proof -
  have po: "preorder (listEntry a) = preorder (listEntry b)"
    unfolding preorder_def by (metis preorder_from_unprefixed assms(2))
  have "export_line pf (listEntry a) q = export_line pf (listEntry b) q" for q
  proof -
    have "input_of (hd (unprefixed [x])) = input_of x" for x by (cases x) simp
    then have "map_option input_of (item_at (listEntry a) q) = map_option input_of (item_at (listEntry b) q)"
      using arg_cong[OF assms(2), of "\<lambda>l. map_option input_of (item_at l q)"]
      by (simp add: item_at_unprefixed option.map_comp comp_def)
    moreover have "computePrefixes pf (listEntry a) = computePrefixes pf (listEntry b)"
      using assms(2) by (rule computePrefixes_cong)
    ultimately show ?thesis
      by (auto simp: export_line_def split: option.splits)
  qed
  then show ?thesis
    unfolding toString_fold po using assms(1) by simp
qed

lemma computePrefixes_project:
  "computePrefixes prefix_init project_tree =
     [([0], ''|--''), ([0, 0], ''|   '' @ CHR 0x5C # ''--''), ([1], CHR 0x5C # ''--'')]"
  by (simp add: computePrefixes_def u_prefix_def project_tree_def labelled_def appendChild_def
        prefix_init_def)

lemma preorder_project: "preorder project_tree = [[0], [0, 0], [1]]"
  by (simp add: preorder_def project_tree_def labelled_def appendChild_def)

lemma ancestors_take: "a \<in> set (ancestors p) \<Longrightarrow> \<exists>k. 0 < k \<and> k \<le> length p \<and> a = take k p"
proof -
  assume "a \<in> set (ancestors p)"
  then obtain k where "a = take k p" "1 \<le> k" "k < length p"
    by (auto simp: ancestors_def)
  then have "0 < k \<and> k \<le> length p \<and> a = take k p" by simp
  then show ?thesis by blast
qed

section \<open>The export read back\<close>

lemma toString_blank_root:
  "toString prefix_init blank_root_page = ''|-- a'' @ [CHR 0x0A] @ [CHR 0x5C] @ ''-- b''"
  by (simp add: toString_def u_prefix_def blank_root_page_def project_page_def two_leaves_def
        labelled_def newNode_input_def js_or_def prefix_init_def trim_def whitespace_def)

lemma toString_pipe_root:
  "toString prefix_init pipe_root_page = ''|-- a'' @ [CHR 0x0A] @ [CHR 0x5C] @ ''-- b''"
  by (simp add: toString_def u_prefix_def pipe_root_page_def project_page_def
        labelled_def newNode_input_def js_or_def prefix_init_def trim_def whitespace_def)

lemma foldl_insert_Suc:
  "foldl (\<lambda>f d. insert_at d f) (G @ [Shape C]) (map Suc ds)
     = G @ [Shape (foldl (\<lambda>f d. insert_at d f) C ds)]"
  by (induction ds arbitrary: C) auto

lemma foldl_insert_depths:
  "foldl (\<lambda>f d. insert_at d f) G (depths f) = G @ shape_of f"
proof (induction f arbitrary: G rule: depths.induct)
  case 1
  then show ?case by simp
next
  case (2 inp c d u rest)
  show ?case
  proof (cases u)
    case None
    then show ?thesis using "2.IH"(2)[of "G @ [Shape []]"] by simp
  next
    case (Some ks)
    then show ?thesis
      using "2.IH"(1)[OF Some, of "[]"] "2.IH"(2)[of "G @ [Shape (shape_of ks)]"]
      by (simp add: foldl_insert_Suc)
  qed
qed

lemma depths_preorder: "depths f = map (\<lambda>q. length q - 1) (preorder_from i f)"
  by (induction i f rule: preorder_from.induct)
     (auto split: option.splits simp: comp_def dest!: preorder_from_nonempty)

lemma split_lines_no_LF: "CHR 0x0A \<notin> set a \<Longrightarrow> split_lines a = [a]"
  by (induction a) auto

lemma split_lines_append_LF:
  "CHR 0x0A \<notin> set a \<Longrightarrow> split_lines (a @ CHR 0x0A # b) = a # split_lines b"
  by (induction a) (auto split: list.splits)

lemma split_lines_concat:
  "CHR 0x0A \<notin> set r \<Longrightarrow> (\<And>l. l \<in> set ls \<Longrightarrow> CHR 0x0A \<notin> set l) \<Longrightarrow>
   split_lines (r @ concat (map (\<lambda>l. CHR 0x0A # l) ls)) = r # ls"
proof (induction ls arbitrary: r)
  case Nil
  then show ?case by (simp add: split_lines_no_LF)
next
  case (Cons l ls)
  then show ?case by (simp add: split_lines_append_LF)
qed

lemma depth_of_prefix:
  "q \<noteq> [] \<Longrightarrow> depth_of (prefix_of prefix_init f q @ z) = length q - 1"
proof (induction prefix_init f q rule: prefix_of.induct)
  case (1 items)
  then show ?case by simp
next
  case (2 items j)
  then show ?case by (cases z) (auto simp: prefix_init_def)
next
  case (3 items j k q)
  then show ?case by (auto simp: prefix_init_def)
qed

lemma prefix_of_shape:
  "q \<noteq> [] \<Longrightarrow> prefix_of prefix_init f q \<noteq> [] \<and> last (prefix_of prefix_init f q) = CHR ''-''
     \<and> CHR 0x0A \<notin> set (prefix_of prefix_init f q)"
proof (induction prefix_init f q rule: prefix_of.induct)
  case (1 items)
  then show ?case by simp
next
  case (2 items j)
  then show ?case by (auto simp: prefix_init_def)
next
  case (3 items j k q)
  then show ?case by (auto simp: prefix_init_def)
qed

lemma trim_rtrim: "trim s = rtrim (dropWhile whitespace s)"
  by (simp add: trim_def rtrim_def)

lemma rtrim_append_visible:
  "\<exists>c\<in>set l. \<not> whitespace c \<Longrightarrow> rtrim (A @ l) = A @ rtrim l"
  by (auto simp: rtrim_def dropWhile_append1)

lemma rtrim_after_visible:
  "pre \<noteq> [] \<Longrightarrow> \<not> whitespace (last pre) \<Longrightarrow> rtrim (pre @ z) = pre @ rtrim z"
proof -
  assume a: "pre \<noteq> []" "\<not> whitespace (last pre)"
  then have h: "dropWhile whitespace (rev pre) = rev pre"
    by (cases "rev pre") (auto simp: last_rev[symmetric] simp del: last_rev)
  show ?thesis
    by (auto simp: rtrim_def dropWhile_append h)
qed

lemma set_rtrim: "set (rtrim l) \<subseteq> set l"
  using set_dropWhileD[of _ whitespace "rev l"] by (auto simp: rtrim_def)

lemma depth_of_rtrim_line:
  assumes "q \<noteq> []"
  shows "depth_of (rtrim (prefix_of prefix_init f q @ z)) = length q - 1"
proof -
  have "\<not> whitespace (last (prefix_of prefix_init f q))" "prefix_of prefix_init f q \<noteq> []"
    using prefix_of_shape[OF assms, of f] by (simp_all add: whitespace_def)
  then have "rtrim (prefix_of prefix_init f q @ z) = prefix_of prefix_init f q @ rtrim z"
    by (simp add: rtrim_after_visible)
  then show ?thesis using depth_of_prefix[OF assms] by simp
qed

lemma visible_in_prefix:
  "q \<noteq> [] \<Longrightarrow> \<exists>c\<in>set (prefix_of prefix_init f q @ z). \<not> whitespace c"
proof -
  assume "q \<noteq> []"
  then have "prefix_of prefix_init f q \<noteq> []" "last (prefix_of prefix_init f q) = CHR ''-''"
    using prefix_of_shape[of q f] by simp_all
  then have "CHR ''-'' \<in> set (prefix_of prefix_init f q)" by (metis last_in_set)
  moreover have "\<not> whitespace CHR ''-''" by (simp add: whitespace_def)
  ultimately show ?thesis by auto
qed

lemma all_inputs_nth: "all_inputs P items \<Longrightarrow> i < length items \<Longrightarrow>
   P (input_of (items ! i)) \<and> all_inputs P (kids (items ! i))"
proof (induction P items arbitrary: i rule: all_inputs.induct)
  case (1 P)
  then show ?case by simp
next
  case (2 P inp c d u rest)
  then show ?case by (cases i) (auto simp: kids_def split: option.splits)
qed

lemma all_inputs_item_at:
  "all_inputs P items \<Longrightarrow> item_at items q = Some it \<Longrightarrow> P (input_of it)"
proof (induction items q rule: item_at.induct)
  case (1 items)
  then show ?case by simp
next
  case (2 items i)
  then show ?case using all_inputs_nth[of P items i] by (auto split: if_splits)
next
  case (3 items i j p)
  then show ?case using all_inputs_nth[of P items i]
    by (auto split: if_splits option.splits simp: kids_def)
qed

lemma parse_toString:
  assumes visible: "\<exists>c\<in>set (label_or_placeholder (root st)). \<not> whitespace c"
    and root_line: "CHR 0x0A \<notin> set (label_or_placeholder (root st))"
    and node_lines: "\<And>q it. item_at (listEntry st) q = Some it \<Longrightarrow>
                       CHR 0x0A \<notin> set (label_or_placeholder (input_of it))"
  shows "parse_export (toString prefix_init st) = shape_of (listEntry st)"
proof -
  let ?f = "listEntry st"
  let ?r = "label_or_placeholder (root st)"
  let ?qs = "preorder ?f"
  let ?line = "\<lambda>q. export_line prefix_init ?f q"
  let ?r' = "dropWhile whitespace ?r"
  have qs_valid: "item_at ?f q \<noteq> None" "q \<noteq> []" if "q \<in> set ?qs" for q
    using that valid_in_preorder[of ?f q] preorder_from_nonempty[of q 0 ?f]
    by (simp_all add: preorder_def)
  have line_eq: "?line q = prefix_of prefix_init ?f q @ '' '' @
         label_or_placeholder (input_of (the (item_at ?f q)))" if "q \<in> set ?qs" for q
    using qs_valid(1)[OF that] by (rule export_line_eq)
  have line_LF: "CHR 0x0A \<notin> set (?line q)" if h: "q \<in> set ?qs" for q
  proof -
    obtain it where it: "item_at ?f q = Some it" using qs_valid(1)[OF h] by auto
    show ?thesis
      using line_eq[OF h] it node_lines[OF it] prefix_of_shape[OF qs_valid(2)[OF h], of ?f]
      by simp
  qed
  have r'_LF: "CHR 0x0A \<notin> set ?r'"
    using root_line set_dropWhileD by fastforce
  have front: "dropWhile whitespace (?r @ M) = ?r' @ M" for M
    using visible by (auto simp: dropWhile_append1)
  have ts: "toString prefix_init st = rtrim (?r' @ concat (map (\<lambda>q. CHR 0x0A # ?line q) ?qs))"
    unfolding toString_fold trim_rtrim front ..
  have "map depth_of (tl (split_lines (toString prefix_init st))) = map (\<lambda>q. length q - 1) ?qs"
  proof (cases ?qs rule: rev_cases)
    case Nil
    have "CHR 0x0A \<notin> set (rtrim ?r')" using r'_LF set_rtrim by blast
    then show ?thesis unfolding ts Nil by (simp add: split_lines_no_LF)
  next
    case (snoc qs0 ql)
    have ql: "ql \<in> set ?qs" and qs0: "set qs0 \<subseteq> set ?qs" using snoc by auto
    let ?A = "?r' @ concat (map (\<lambda>q. CHR 0x0A # ?line q) qs0) @ [CHR 0x0A]"
    have vis: "\<exists>c\<in>set (?line ql). \<not> whitespace c"
      unfolding line_eq[OF ql] by (rule visible_in_prefix[OF qs_valid(2)[OF ql]])
    have "toString prefix_init st = rtrim (?A @ ?line ql)"
      unfolding ts snoc by simp
    also have "\<dots> = ?A @ rtrim (?line ql)"
      using vis by (rule rtrim_append_visible)
    also have "\<dots> = ?r' @ concat (map (\<lambda>l. CHR 0x0A # l) (map ?line qs0 @ [rtrim (?line ql)]))"
      by (simp add: comp_def)
    finally have t: "toString prefix_init st =
        ?r' @ concat (map (\<lambda>l. CHR 0x0A # l) (map ?line qs0 @ [rtrim (?line ql)]))" .
    have lf: "CHR 0x0A \<notin> set l" if "l \<in> set (map ?line qs0 @ [rtrim (?line ql)])" for l
      using that line_LF qs0 ql set_rtrim[of "?line ql"] by auto
    have sp: "split_lines (toString prefix_init st) = ?r' # map ?line qs0 @ [rtrim (?line ql)]"
      unfolding t using r'_LF lf by (rule split_lines_concat)
    have d0: "depth_of (?line q) = length q - 1" if h: "q \<in> set qs0" for q
    proof -
      have m: "q \<in> set ?qs" using h qs0 by auto
      show ?thesis
        unfolding line_eq[OF m] by (rule depth_of_prefix[OF qs_valid(2)[OF m]])
    qed
    have dl: "depth_of (rtrim (?line ql)) = length ql - 1"
      unfolding line_eq[OF ql] by (rule depth_of_rtrim_line[OF qs_valid(2)[OF ql]])
    show ?thesis
      unfolding sp snoc using d0 dl by simp
  qed
  then have "parse_export (toString prefix_init st) = foldl (\<lambda>f d. insert_at d f) [] (depths ?f)"
    unfolding parse_export_def by (simp add: depths_preorder[of ?f 0] preorder_def)
  then show ?thesis by (simp add: foldl_insert_depths)
qed

section \<open>Adding a sibling; a move\<close>

lemma append_sibling_single: "append_sibling [i] x f = f @ [x]"
  by (simp add: append_sibling_def)

lemma append_sibling_deeper:
  "i < length f \<Longrightarrow> f ! i = LI inp c d (Some ks) \<Longrightarrow>
   append_sibling (i # j # p) x f = f[i := LI inp c d (Some (append_sibling (j # p) x ks))]"
proof (cases "butlast (j # p) = []")
  case True
  assume a: "i < length f" "f ! i = LI inp c d (Some ks)"
  from True have p: "p = []" by (cases p) auto
  show ?thesis using a by (simp add: p append_sibling_def appendChild_def)
next
  case False
  assume a: "i < length f" "f ! i = LI inp c d (Some ks)"
  from False obtain b bs where b: "butlast (j # p) = b # bs" by (cases "butlast (j # p)") auto
  have "butlast (i # j # p) = i # b # bs" using b by simp
  then show ?thesis using a b False by (simp add: append_sibling_def del: butlast.simps)
qed

lemma item_at_append_last:
  "ul_of x = None \<Longrightarrow>
   item_at (f @ [x]) q = (if q = [length f] then Some x else item_at f q)"
proof (cases q rule: path_cases)
  case Root
  then show ?thesis by simp
next
  case (Single j)
  then show ?thesis by (auto simp: nth_append)
next
  case (Deeper j k r)
  assume "ul_of x = None"
  then show ?thesis using Deeper by (auto simp: nth_append)
qed

lemma label_at_append_sibling:
  "siblings f p = Some ul \<Longrightarrow> ul_of x = None \<Longrightarrow>
   label_at (append_sibling p x f) q =
     (if q = butlast p @ [length ul] then Some (ivalue (input_of x)) else label_at f q)"
proof (induction f p arbitrary: q rule: siblings.induct)
  case (1 items)
  then show ?case by simp
next
  case (2 items i)
  then show ?case
    by (auto simp: append_sibling_single label_at_def item_at_append_last split: if_splits)
next
  case (3 items i j p)
  from "3.prems"(1) have i: "i < length items" by (simp split: if_splits)
  obtain inp c d u where x: "items ! i = LI inp c d u" by (cases "items ! i")
  from "3.prems"(1) i x obtain ks where u: "u = Some ks" and s: "siblings ks (j # p) = Some ul"
    by (auto split: option.splits)
  have ul: "ul_of (items ! i) = Some ks" using x u by simp
  note IH = "3.IH"[OF i ul s "3.prems"(2)]
  have as: "append_sibling (i # j # p) x items
        = items[i := LI inp c d (Some (append_sibling (j # p) x ks))]"
    using i x u by (simp add: append_sibling_deeper)
  show ?case
  proof (cases q rule: path_cases)
    case Root
    then show ?thesis by (simp add: label_at_def)
  next
    case (Single j')
    then show ?thesis using i x by (auto simp: as label_at_def nth_list_update)
  next
    case (Deeper j' k r)
    show ?thesis
    proof (cases "j' = i")
      case True
      then show ?thesis
        using Deeper i x u IH[of "k # r"]
        by (auto simp: as label_at_def nth_list_update simp del: butlast.simps)
           (auto)
    next
      case False
      then show ?thesis using Deeper i by (auto simp: as label_at_def nth_list_update)
    qed
  qed
qed

lemma length_map_inputs: "length (map_inputs g items) = length items"
  by (induction g items rule: map_inputs.induct) auto

lemma map_inputs_nth:
  "i < length items \<Longrightarrow> map_inputs g items ! i = map_inputs_li g (items ! i)"
proof (induction g items arbitrary: i rule: map_inputs.induct)
  case (1 f)
  then show ?case by simp
next
  case (2 f inp c d u rest)
  then show ?case by (cases i) (auto simp: map_inputs_li_def)
qed

lemma item_at_map_inputs:
  "item_at (map_inputs g items) q = map_option (map_inputs_li g) (item_at items q)"
proof (induction items q rule: item_at.induct)
  case (1 items)
  then show ?case by simp
next
  case (2 items i)
  then show ?case by (simp add: length_map_inputs map_inputs_nth)
next
  case (3 items i j p)
  then show ?case
    by (cases "items ! i")
       (auto simp: length_map_inputs map_inputs_nth map_inputs_li_def split: option.splits)
qed

lemma label_at_map_inputs:
  "(\<And>node. ivalue (g node) = ivalue node) \<Longrightarrow> label_at (map_inputs g items) q = label_at items q"
  unfolding label_at_def item_at_map_inputs
  by (cases "item_at items q") (auto simp: map_inputs_li_def split: li.splits)

lemma label_at_unprefixed: "label_at (unprefixed items) q = label_at items q"
proof -
  have "input_of (hd (unprefixed [x])) = input_of x" for x by (cases x) simp
  then show ?thesis
    unfolding label_at_def item_at_unprefixed by (cases "item_at items q") auto
qed

lemma label_at_render: "label_at (listEntry (render pf st)) q = label_at (listEntry st) q"
  by (metis label_at_unprefixed unprefixed_render)

lemma ivalue_addListeners: "ivalue (addListeners node) = ivalue node"
  by (simp add: addListeners_def)

lemma label_at_update: "label_at (listEntry (update pf st)) q = label_at (listEntry st) q"
  by (simp add: update_def label_at_render u_addMenuListeners_def on_inputs_def
        label_at_map_inputs ivalue_addListeners)

lemma root_update: "ivalue (root (update pf st)) = ivalue (root st)"
  by (simp add: update_def render_def u_addMenuListeners_def on_inputs_def ivalue_addListeners)

lemma rootSiblings_update: "length (rootSiblings (update pf st)) = length (rootSiblings st)"
  by (simp add: update_def render_def u_addMenuListeners_def on_inputs_def length_map_inputs)

lemma siblings_rootItem: "p \<noteq> [] \<Longrightarrow> siblings [rootItem st] (0 # p) = siblings (listEntry st) p"
  by (cases p) (auto simp: rootItem_def)

lemma siblings_Some_nonempty: "siblings f p = Some ul \<Longrightarrow> p \<noteq> []"
  by (cases p) auto

lemma append_sibling_rootItem:
  "p \<noteq> [] \<Longrightarrow> append_sibling (0 # p) x [rootItem st]
     = [LI (root st) (rootClass st) None (Some (append_sibling p x (listEntry st)))]"
proof (cases p)
  case Nil
  assume "p \<noteq> []" then show ?thesis using Nil by simp
next
  case (Cons j r)
  show ?thesis unfolding Cons
    by (subst append_sibling_deeper[where inp = "root st" and c = "rootClass st" and d = None
            and ks = "listEntry st"]) (simp_all add: rootItem_def)
qed

lemma addSibling_below_root:
  "p \<noteq> [] \<Longrightarrow> addSibling pf (Item p) st =
     (case siblings [rootItem st] (0 # p) of
        None \<Rightarrow> Throws NoSuchNode st
      | Some ul \<Rightarrow>
          (let f' = append_sibling (0 # p) newNode_li [rootItem st]
           in Returns (at_path (Item p) f' (butlast (0 # p) @ [length ul]))
                (update pf (put_holder (Item p) f' st))))"
  by (cases p) (auto simp: addSibling_def)

lemma addSibling_item:
  assumes "siblings (listEntry st) p = Some ul"
  shows "addSibling pf (Item p) st =
           Returns (Item (butlast p @ [length ul]))
             (update pf (st\<lparr>listEntry := append_sibling p newNode_li (listEntry st)\<rparr>))"
proof -
  have ne: "p \<noteq> []" using assms by (rule siblings_Some_nonempty)
  have s: "siblings [rootItem st] (0 # p) = Some ul" using assms ne by (simp add: siblings_rootItem)
  have b: "butlast (0 # p) = 0 # butlast p" using ne by simp
  show ?thesis
    unfolding addSibling_below_root[OF ne] s b append_sibling_rootItem[OF ne]
    by (simp add: Let_def)
qed

lemma move_start_eq:
  "move_start = project_page
     \<lparr>root := (root project_page)\<lparr>hasListeners := True\<rparr>,
      listEntry := [LI (newNode_input\<lparr>ivalue := ''a'', hasListeners := True\<rparr>) [] (Some ''|--'') None,
                    LI (newNode_input\<lparr>ivalue := ''b'', hasListeners := True\<rparr>) [] (Some (CHR 0x5C # ''--'')) None]\<rparr>"
  by (simp add: move_start_def update_def render_def u_addMenuListeners_def on_inputs_def
        project_page_def two_leaves_def labelled_def addListeners_def newNode_input_def
        u_prefix_def set_dataset_prefix_def prefix_init_def)

lemma move_armed_eq:
  "move_armed = project_page
     \<lparr>root := (root project_page)\<lparr>hasListeners := True\<rparr>,
      listEntry := [LI (newNode_input\<lparr>ivalue := ''a''\<rparr>) ''moving'' (Some ''|--'') None,
                    LI (newNode_input\<lparr>ivalue := ''b'', hasListeners := True, clickListeners := [0],
                                       clickListener := Some 0\<rparr>)
                       ''move-destination'' (Some (CHR 0x5C # ''--'')) None],
      menuClass := ''active'', inMoveState := True, activeBranch := Item [0], listenerCount := 1\<rparr>"
  unfolding move_armed_def move_start_eq
  by (simp add: u_handleBranchMouseOver_def u_positionContextMenu_def moveBranch_def deref_def
        modify_def rootItem_def project_page_def set_className_def u_removeMenuListeners_def
        on_inputs_def map_inputs_li_def removeListeners_def newNode_input_def on_input_def Let_def)

lemma move_done_result:
  "u_moveBranch prefix_init (Item [1]) move_armed = Returns () move_done"
  unfolding move_done_def move_armed_eq
  by (simp add: u_moveBranch_def rootItem_def project_page_def is_under_def Let_def)

lemma move_done_eq:
  "move_done = project_page
     \<lparr>root := (root project_page)\<lparr>hasListeners := True\<rparr>,
      listEntry := [LI (newNode_input\<lparr>ivalue := ''b'', hasListeners := True, clickListeners := [0],
                                       clickListener := Some 0\<rparr>)
                       [] (Some (CHR 0x5C # ''--''))
                       (Some [LI (newNode_input\<lparr>ivalue := ''a'', hasListeners := True\<rparr>) []
                                (Some (''    '' @ CHR 0x5C # ''--'')) None])],
      menuClass := ''active'', inMoveState := False, activeBranch := Item [0, 0], listenerCount := 1\<rparr>"
  unfolding move_done_def move_armed_eq
  by (simp add: u_moveBranch_def rootItem_def project_page_def is_under_def Let_def
        kids_def appendChild_def set_className_def update_def render_def u_addMenuListeners_def
        on_inputs_def addListeners_def newNode_input_def u_prefix_def set_dataset_prefix_def
        prefix_init_def)

lemma move_hover_again_eq:
  "move_hover_again = move_done\<lparr>activeBranch := Item [0], addSiblingDisplay := None,
      moveBranchDisplay := None, deleteBranchDisplay := None, menuClass := ''active''\<rparr>"
  unfolding move_hover_again_def move_done_eq
  by (simp add: u_handleBranchMouseOver_def u_handleBranchMouseOut_def u_positionContextMenu_def
        project_page_def Let_def)

text \<open>Whenever the destination is the active branch or stands below it, \<^verbatim>\<open>_moveBranch\<close>
  removes the branch from the tree and throws.\<close>

lemma length_update_at: "length (update_at g p f) = length f"
  by (induction g p f rule: update_at.induct) (auto split: li.splits option.splits)

lemma item_at_under:
  "item_at f d \<noteq> None \<Longrightarrow> is_under a d \<Longrightarrow> a \<noteq> [] \<Longrightarrow> item_at f a \<noteq> None"
proof (induction f a arbitrary: d rule: item_at.induct)
  case (1 items)
  then show ?case by simp
next
  case (2 items i)
  then show ?case
    by (cases d rule: path_cases) (auto simp: is_under_def split: if_splits)
next
  case (3 items i j p)
  from "3.prems"(2) obtain d' where dd: "d = i # d'" "is_under (j # p) d'"
    by (cases d) (auto simp: is_under_def)
  then obtain j' r' where d': "d' = j' # r'" by (cases d') (auto simp: is_under_def)
  from "3.prems"(1) have i: "i < length items"
    unfolding dd d' by (simp split: if_splits)
  from "3.prems"(1) i obtain ks where ks: "ul_of (items ! i) = Some ks" "item_at ks d' \<noteq> None"
    unfolding dd d' by (auto split: option.splits)
  have "item_at ks (j # p) \<noteq> None"
    using "3.IH"[OF i ks(1) ks(2) dd(2)] by simp
  then show ?case using i ks by simp
qed

lemma remove_at_valid:
  "item_at f a = Some y \<Longrightarrow> \<exists>f'. remove_at a f = Some (y, f')"
proof (induction f a rule: item_at.induct)
  case (1 items)
  then show ?case by simp
next
  case (2 items i)
  then show ?case by (auto split: if_splits)
next
  case (3 items i j p)
  then show ?case
    by (cases "items ! i") (auto split: if_splits option.splits)
qed

lemma remove_at_rootItem:
  "a \<noteq> [] \<Longrightarrow> remove_at a (listEntry st) = Some (x, f') \<Longrightarrow>
   remove_at (0 # a) [rootItem st] = Some (x, [LI (root st) (rootClass st) None (Some f')])"
  by (cases a) (auto simp: rootItem_def)

lemma u_moveBranch_under_itself:
  assumes "activeBranch st = Item a" and "a \<noteq> []" and "is_under a d"
    and "item_at (listEntry st) d \<noteq> None"
  shows "\<exists>x f' x'. remove_at a (listEntry st) = Some (x, f')
           \<and> u_moveBranch pf (Item d) st
               = Throws HierarchyRequestError (st\<lparr>listEntry := f', activeBranch := Orphan x' []\<rparr>)"
proof -
  have "item_at (listEntry st) a \<noteq> None"
    using assms(4,3,2) by (rule item_at_under)
  then obtain x where "item_at (listEntry st) a = Some x" by auto
  then obtain f' where r: "remove_at a (listEntry st) = Some (x, f')"
    using remove_at_valid by blast
  have rr: "remove_at (0 # a) [rootItem st] = Some (x, [LI (root st) (rootClass st) None (Some f')])"
    using assms(2) r by (rule remove_at_rootItem)
  obtain j r' where a: "a = j # r'" using assms(2) by (cases a) auto
  have "length (update_at ensure_ul (0 # drop (length a) d) [x]) = 1"
    by (simp add: length_update_at)
  then obtain x' where u: "update_at ensure_ul (0 # drop (length a) d) [x] = [x']"
    by (metis One_nat_def length_0_conv length_Suc_conv)
  have "u_moveBranch pf (Item d) st
      = Throws HierarchyRequestError (st\<lparr>listEntry := f', activeBranch := Orphan x' []\<rparr>)"
    unfolding u_moveBranch_def assms(1) a
    using rr[unfolded a] assms(3)[unfolded a] u[unfolded a]
    by (simp add: Let_def)
  with r show ?thesis by blast
qed

section \<open>The claims\<close>

text \<open>
  C1.  In every tree, for every node below the root, the prefix that the prefix
  algorithm hands to the processor ends in the node's connector token, after four
  characters of spacers for each level above it; the connector is \<^verbatim>\<open>\--\<close> exactly when
  the node is the last element of its parent's child sequence, and \<^verbatim>\<open>|--\<close> otherwise.
  The tokens are the ones the \<^verbatim>\<open>prefix\<close> object is created with.
\<close>

theorem connector_token:
  assumes "item_at items p \<noteq> None"
  shows "\<exists>spacers connector.
           map_of (computePrefixes prefix_init items) p = Some (spacers @ connector)
         \<and> length spacers = 4 * (length p - 1)
         \<and> connector = (if is_last_child items p then CHR 0x5C # ''--'' else ''|--'')
         \<and> (connector = CHR 0x5C # ''--'') = is_last_child items p
         \<and> (connector = ''|--'') = (\<not> is_last_child items p)"
proof -
  let ?S = "concat (map (\<lambda>a. if is_last_child items a then spacer_empty prefix_init
                                else spacer_branch prefix_init) (ancestors p))"
  let ?c = "if is_last_child items p then CHR 0x5C # ''--'' else ''|--''"
  have "map_of (computePrefixes prefix_init items) p = Some (?S @ ?c)"
    using assms by (simp add: map_of_computePrefixes prefix_of_closed) (simp add: prefix_init_def)
  moreover have "length ?S = 4 * (length p - 1)"
    by (simp add: length_concat ancestors_def comp_def prefix_init_def sum_list_triv
             if_distrib[of length] cong: if_cong)
  moreover have "(?c = CHR 0x5C # ''--'') = is_last_child items p" by simp
  moreover have "(?c = ''|--'') = (\<not> is_last_child items p)" by simp
  ultimately show ?thesis by blast
qed

theorem connector_token_witness:
  "item_at project_tree [0] \<noteq> None \<and> \<not> is_last_child project_tree [0]
   \<and> (\<exists>spacers. map_of (computePrefixes prefix_init project_tree) [0] = Some (spacers @ ''|--'')
         \<and> length spacers = 0)
   \<and> item_at project_tree [0, 0] \<noteq> None \<and> is_last_child project_tree [0, 0]
   \<and> (\<exists>spacers. map_of (computePrefixes prefix_init project_tree) [0, 0]
                     = Some (spacers @ CHR 0x5C # ''--'')
         \<and> length spacers = 4)"
proof -
  have v: "item_at project_tree [0] \<noteq> None" "item_at project_tree [0, 0] \<noteq> None"
    by (simp_all add: project_tree_def appendChild_def labelled_def)
  have l: "\<not> is_last_child project_tree [0]" "is_last_child project_tree [0, 0]"
    by (simp_all add: is_last_child_def project_tree_def appendChild_def labelled_def)
  show ?thesis
    using connector_token[OF v(1)] connector_token[OF v(2)] v l by auto
qed

text \<open>
  C2.  In every tree, for every node below the root, the full prefix is the
  concatenation, root-most ancestor first, of one spacer for each proper ancestor below
  the root (four spaces when that ancestor is the last of its siblings, a pipe and
  three spaces otherwise), followed by the node's own connector.
\<close>

theorem full_prefix:
  assumes "item_at items p \<noteq> None"
  shows "map_of (computePrefixes prefix_init items) p =
           Some (concat (map (\<lambda>a. if is_last_child items a then ''    '' else ''|   '')
                           (ancestors p))
                   @ (if is_last_child items p then CHR 0x5C # ''--'' else ''|--''))"
  using assms
  by (simp add: map_of_computePrefixes prefix_of_closed)
     (simp add: prefix_init_def cong del: if_weak_cong)

theorem full_prefix_witness:
  "item_at project_tree [0, 0] \<noteq> None
   \<and> map_of (computePrefixes prefix_init project_tree) [0, 0] = Some (''|   '' @ CHR 0x5C # ''--'')"
proof -
  have v: "item_at project_tree [0, 0] \<noteq> None"
    by (simp add: project_tree_def appendChild_def labelled_def)
  have a: "ancestors [0, 0] = [[0]]"
    by (simp add: ancestors_def)
  have l: "\<not> is_last_child project_tree [0]" "is_last_child project_tree [0, 0]"
    by (simp_all add: is_last_child_def project_tree_def appendChild_def labelled_def)
  show ?thesis
    using full_prefix[OF v] v a l by simp
qed

text \<open>
  C3.  \<^verbatim>\<open>_moveBranch\<close> run with the active branch as its own destination.  In the session
  above the click listener that the first move left on the input of \<^verbatim>\<open>b\<close> is still
  registered and the active branch is \<^verbatim>\<open>b\<close>; a click on that input runs \<^verbatim>\<open>_moveBranch\<close>,
  which takes \<^verbatim>\<open>b\<close> (with \<^verbatim>\<open>a\<close> below it) out of the tree and then throws: the tree is not
  left as it was, it is left empty.
\<close>

theorem move_onto_itself:
  "u_moveBranch prefix_init (Item [1]) move_armed = Returns () move_done
   \<and> deref (Item [0]) move_hover_again \<noteq> None
   \<and> map_option (\<lambda>it. clickListeners (input_of it)) (deref (Item [0]) move_hover_again) = Some [0]
   \<and> activeBranch move_hover_again = Item [0]
   \<and> label_at (listEntry move_hover_again) [0] = Some ''b''
   \<and> label_at (listEntry move_hover_again) [0, 0] = Some ''a''
   \<and> (\<exists>x. u_moveBranch prefix_init (Item [0]) move_hover_again
            = Throws HierarchyRequestError (move_hover_again\<lparr>listEntry := [], activeBranch := Orphan x []\<rparr>))"
proof -
  have "deref (Item [0]) move_hover_again \<noteq> None
   \<and> map_option (\<lambda>it. clickListeners (input_of it)) (deref (Item [0]) move_hover_again) = Some [0]
   \<and> activeBranch move_hover_again = Item [0]
   \<and> label_at (listEntry move_hover_again) [0] = Some ''b''
   \<and> label_at (listEntry move_hover_again) [0, 0] = Some ''a''
   \<and> (\<exists>x. u_moveBranch prefix_init (Item [0]) move_hover_again
            = Throws HierarchyRequestError (move_hover_again\<lparr>listEntry := [], activeBranch := Orphan x []\<rparr>))"
    unfolding move_hover_again_eq move_done_eq
    by (simp add: deref_def rootItem_def label_at_def project_page_def u_moveBranch_def is_under_def
          Let_def ensure_ul_def)
  then show ?thesis using move_done_result by simp
qed

text \<open>
  C4 (as stated) fails: the export is trimmed at both ends, so when the root's label
  is a single space the first line of the export is the line of the first node, not
  the root's label.
\<close>

theorem export_format_counterexample:
  "label_or_placeholder (root blank_root_page) = '' ''
   \<and> toString prefix_init blank_root_page = ''|-- a'' @ [CHR 0x0A] @ [CHR 0x5C] @ ''-- b''
   \<and> first_line (toString prefix_init blank_root_page) \<noteq> label_or_placeholder (root blank_root_page)"
  unfolding toString_blank_root
  by (simp add: first_line_def label_or_placeholder_def js_or_def blank_root_page_def project_page_def)

text \<open>
  C4 (amended).  For every page, the export is the trimmed text whose first line is the
  root's label (its placeholder when the label is empty), followed by one line for
  every node below the root, in depth-first pre-order, each made of the node's prefix,
  a space and the node's label or placeholder; the processor is called for the nodes
  in that same order; and the export neither starts nor ends in whitespace.
\<close>

theorem export_format:
  "toString pf st =
     trim (label_or_placeholder (root st)
           @ concat (map (\<lambda>q. CHR 0x0A # export_line pf (listEntry st) q) (preorder (listEntry st))))
   \<and> map fst (computePrefixes pf (listEntry st)) = preorder (listEntry st)
   \<and> (toString pf st = [] \<or> \<not> whitespace (last (toString pf st)))
   \<and> (toString pf st = [] \<or> \<not> whitespace (hd (toString pf st)))"
proof -
  have "toString pf st = [] \<or> \<not> whitespace (last (toString pf st))"
    unfolding toString_def by (rule trim_no_trailing)
  moreover have "toString pf st = [] \<or> \<not> whitespace (hd (toString pf st))"
    unfolding toString_def by (rule trim_no_leading)
  moreover have "map fst (computePrefixes pf (listEntry st)) = preorder (listEntry st)"
    by (simp add: computePrefixes_eq preorder_def comp_def)
  ultimately show ?thesis using toString_fold[of pf st] by blast
qed

theorem export_format_witness:
  "toString prefix_init project_page =
     ''project'' @ [CHR 0x0A] @ ''|-- src'' @ [CHR 0x0A] @ ''|   '' @ [CHR 0x5C] @ ''-- index.js''
       @ [CHR 0x0A] @ [CHR 0x5C] @ ''-- README.md''
   \<and> \<not> whitespace (last (toString prefix_init project_page))"
proof -
  have r: "label_or_placeholder (root project_page) = ''project''"
    by (simp add: project_page_def label_or_placeholder_def js_or_def newNode_input_def)
  have l: "listEntry project_page = project_tree" by (simp add: project_page_def)
  have e: "export_line prefix_init project_tree [0] = ''|-- src''"
     "export_line prefix_init project_tree [0, 0] = ''|   '' @ [CHR 0x5C] @ ''-- index.js''"
     "export_line prefix_init project_tree [1] = [CHR 0x5C] @ ''-- README.md''"
    unfolding export_line_def computePrefixes_project
    by (simp_all add: project_tree_def labelled_def appendChild_def label_or_placeholder_def
          js_or_def newNode_input_def)
  have t: "toString prefix_init project_page =
     ''project'' @ [CHR 0x0A] @ ''|-- src'' @ [CHR 0x0A] @ ''|   '' @ [CHR 0x5C] @ ''-- index.js''
       @ [CHR 0x0A] @ [CHR 0x5C] @ ''-- README.md''"
    using export_format[of prefix_init project_page]
    unfolding r l preorder_project
    by (simp add: e trim_def whitespace_def del: One_nat_def)
  show ?thesis
    unfolding t by (simp add: whitespace_def)
qed

text \<open>
  C5 (as stated) fails: the two pages below have the same export and different trees,
  so no way of reading the export recovers the tree of both; the parser above returns
  a single node for the first, which has two.
\<close>

theorem export_round_trip_counterexample:
  "toString prefix_init blank_root_page = toString prefix_init pipe_root_page
   \<and> shape_of (listEntry blank_root_page) \<noteq> shape_of (listEntry pipe_root_page)
   \<and> parse_export (toString prefix_init blank_root_page) \<noteq> shape_of (listEntry blank_root_page)"
  unfolding toString_blank_root toString_pipe_root
  by (simp add: blank_root_page_def pipe_root_page_def two_leaves_def labelled_def
        parse_export_def)

text \<open>
  C5 (amended).  With the tokens the \<^verbatim>\<open>prefix\<close> object is created with: for every page
  whose root text (label, or placeholder when the label is empty) has a character that
  is not whitespace, and in which neither the root text nor the text of any node
  contains a line feed, reading the export back by indentation and connector gives
  exactly the parent/child relation and the sibling order of the tree.
\<close>

theorem export_round_trip:
  assumes "visible (label_or_placeholder (root st))"
    and "single_line (label_or_placeholder (root st))"
    and "all_inputs (\<lambda>node. single_line (label_or_placeholder node)) (listEntry st)"
  shows "parse_export (toString prefix_init st) = shape_of (listEntry st)"
proof (rule parse_toString)
  show "\<exists>c\<in>set (label_or_placeholder (root st)). \<not> whitespace c"
    using assms(1) by (simp add: visible_def)
  show "CHR 0x0A \<notin> set (label_or_placeholder (root st))"
    using assms(2) by (simp add: single_line_def)
  show "CHR 0x0A \<notin> set (label_or_placeholder (input_of it))"
    if "item_at (listEntry st) q = Some it" for q it
    using all_inputs_item_at[OF assms(3) that] by (simp add: single_line_def)
qed

theorem export_round_trip_witness:
  "visible (label_or_placeholder (root project_page))
   \<and> single_line (label_or_placeholder (root project_page))
   \<and> all_inputs (\<lambda>node. single_line (label_or_placeholder node)) (listEntry project_page)
   \<and> parse_export (toString prefix_init project_page) = [Shape [Shape []], Shape []]
   \<and> shape_of (listEntry project_page) = [Shape [Shape []], Shape []]"
proof -
  have a: "visible (label_or_placeholder (root project_page))"
     "single_line (label_or_placeholder (root project_page))"
     "all_inputs (\<lambda>node. single_line (label_or_placeholder node)) (listEntry project_page)"
    by (simp_all add: visible_def single_line_def label_or_placeholder_def js_or_def
          project_page_def project_tree_def labelled_def appendChild_def newNode_input_def
          whitespace_def)
  have s: "shape_of (listEntry project_page) = [Shape [Shape []], Shape []]"
    by (simp add: project_page_def project_tree_def labelled_def appendChild_def)
  show ?thesis
    using export_round_trip[OF a] a s by simp
qed

text \<open>
  C6.  With the same tokens, a second run of the prefix algorithm on a tree that the
  first run has annotated computes the same prefix for every node, and rendering again
  leaves the page as the first rendering left it.
\<close>

theorem prefix_idempotent:
  "computePrefixes pf (listEntry (render pf st)) = computePrefixes pf (listEntry st)
   \<and> render pf (render pf st) = render pf st"
  using computePrefixes_cong[OF unprefixed_render[of pf st], of pf] render_render[of pf st]
  by simp

theorem prefix_idempotent_witness:
  "computePrefixes prefix_init (listEntry (render prefix_init project_page)) =
     [([0], ''|--''), ([0, 0], ''|   '' @ CHR 0x5C # ''--''), ([1], CHR 0x5C # ''--'')]
   \<and> render prefix_init (render prefix_init project_page) = render prefix_init project_page"
  using prefix_idempotent[of prefix_init project_page] computePrefixes_project
  by (simp add: project_page_def)

text \<open>
  C7.  From the tree with root \<^verbatim>\<open>project\<close>, children \<^verbatim>\<open>src\<close> and \<^verbatim>\<open>README.md\<close>, and
  \<^verbatim>\<open>index.js\<close> below \<^verbatim>\<open>src\<close>: \<^verbatim>\<open>deleteBranch\<close> on \<^verbatim>\<open>src\<close> returns, and the export of the
  page it leaves is exactly \<^verbatim>\<open>project\<close>, a line feed, and \<^verbatim>\<open>\-- README.md\<close>.
\<close>

theorem delete_src_export:
  assumes "ivalue (root st) = ''project''" and "listEntry st = project_tree"
  shows "\<exists>st'. deleteBranch prefix_init (Item [0]) st = Returns () st'
           \<and> toString prefix_init st' = ''project'' @ [CHR 0x0A] @ (CHR 0x5C # ''-- README.md'')"
proof -
  have h: "holder (Item [0]) st = Some ([rootItem st], [0, 0])" by simp
  have r: "remove_at [0, 0] [rootItem st] =
       Some (appendChild (labelled ''index.js'') (labelled ''src''),
             [LI (root st) (rootClass st) None (Some [labelled ''README.md''])])"
    using assms(2) by (simp add: rootItem_def project_tree_def)
  define st1 where "st1 =
      (put_holder (Item [0]) [LI (root st) (rootClass st) None (Some [labelled ''README.md''])] st)
        \<lparr>activeBranch :=
           after_removal (Item [0]) (appendChild (labelled ''index.js'') (labelled ''src''))
             (activeBranch st),
         menuClass := []\<rparr>"
  have d: "deleteBranch prefix_init (Item [0]) st = Returns () (update prefix_init st1)"
    unfolding deleteBranch_def st1_def using h r by simp
  have s1: "root st1 = root st" "listEntry st1 = [labelled ''README.md'']"
    by (simp_all add: st1_def)
  have "toString prefix_init (update prefix_init st1)
      = ''project'' @ [CHR 0x0A] @ (CHR 0x5C # ''-- README.md'')"
  proof (rule toString_readme)
    show "ivalue (root (update prefix_init st1)) = ''project''"
      using assms(1) s1
      by (simp add: update_def render_def u_addMenuListeners_def on_inputs_def addListeners_def)
    show "map (\<lambda>it. (ivalue (input_of it), ul_of it)) (listEntry (update prefix_init st1))
        = [(''README.md'', None)]"
      using s1
      by (simp add: update_def render_def u_addMenuListeners_def on_inputs_def addListeners_def
           labelled_def newNode_input_def u_prefix_def set_dataset_prefix_def)
  qed
  with d show ?thesis by blast
qed

theorem delete_src_export_witness:
  "ivalue (root project_page) = ''project'' \<and> listEntry project_page = project_tree
   \<and> (\<exists>st'. deleteBranch prefix_init (Item [0]) project_page = Returns () st'
           \<and> toString prefix_init st' = ''project'' @ [CHR 0x0A] @ (CHR 0x5C # ''-- README.md''))"
proof -
  have a: "ivalue (root project_page) = ''project''" "listEntry project_page = project_tree"
    by (simp_all add: project_page_def newNode_input_def)
  show ?thesis
    using delete_src_export[OF a] a by simp
qed

text \<open>
  C8 (as stated) fails: on the root's item \<^verbatim>\<open>addSibling\<close> neither throws nor leaves the
  page alone; it returns, and a new item stands beside the root's item.
\<close>

theorem addSibling_counterexample:
  "rootSiblings project_page = []
   \<and> map_option rootSiblings (returned_page (addSibling prefix_init (Item []) project_page))
       = Some [LI (newNode_input\<lparr>hasListeners := True\<rparr>) [] None None]"
  by (simp add: addSibling_def project_page_def update_def render_def u_addMenuListeners_def
        on_inputs_def newNode_li_def addListeners_def newNode_input_def)

text \<open>
  C8 (amended).  Hovering an input sets the active branch to its item and hides the
  menu entry \<^verbatim>\<open>addSibling\<close> exactly when the input is the root's: that is how the root is
  kept from \<^verbatim>\<open>addSibling\<close>.  The method itself has no check: on the root's item it
  returns a new item appended beside the root's item, outside \<^verbatim>\<open>#listEntry\<close>, and the
  labels of the tree are as before.  For every node below the root it returns a new
  node with an empty label, which is the last child of the node's parent; every other
  path names the node with the label it named before, so all existing nodes and their
  order are unchanged.
\<close>

theorem addSibling_guarded:
  "addSiblingDisplay (u_positionContextMenu t st) = (if t = Item [] then Some ''none'' else None)
   \<and> activeBranch (u_positionContextMenu t st) = t
   \<and> (\<exists>st'. addSibling pf (Item []) st = Returns (Beside [length (rootSiblings st)]) st'
         \<and> length (rootSiblings st') = length (rootSiblings st) + 1
         \<and> (\<forall>q. label_at (listEntry st') q = label_at (listEntry st) q)
         \<and> ivalue (root st') = ivalue (root st))
   \<and> (siblings (listEntry st) p = Some ul \<longrightarrow>
        (\<exists>st'. addSibling pf (Item p) st = Returns (Item (butlast p @ [length ul])) st'
           \<and> (\<forall>q. label_at (listEntry st') q =
                    (if q = butlast p @ [length ul] then Some [] else label_at (listEntry st) q))
           \<and> ivalue (root st') = ivalue (root st)))"
proof (intro conjI impI)
  show "addSiblingDisplay (u_positionContextMenu t st) = (if t = Item [] then Some ''none'' else None)"
    by (simp add: u_positionContextMenu_def Let_def)
  show "activeBranch (u_positionContextMenu t st) = t"
    by (simp add: u_positionContextMenu_def Let_def)
next
  let ?st1 = "st\<lparr>rootSiblings := rootSiblings st @ [newNode_li]\<rparr>"
  have "addSibling pf (Item []) st = Returns (Beside [length (rootSiblings st)]) (update pf ?st1)"
    by (simp add: addSibling_def)
  moreover have "length (rootSiblings (update pf ?st1)) = length (rootSiblings st) + 1"
    by (simp add: rootSiblings_update)
  moreover have "\<forall>q. label_at (listEntry (update pf ?st1)) q = label_at (listEntry st) q"
    by (simp add: label_at_update)
  moreover have "ivalue (root (update pf ?st1)) = ivalue (root st)"
    by (simp add: root_update)
  ultimately show "\<exists>st'. addSibling pf (Item []) st = Returns (Beside [length (rootSiblings st)]) st'
         \<and> length (rootSiblings st') = length (rootSiblings st) + 1
         \<and> (\<forall>q. label_at (listEntry st') q = label_at (listEntry st) q)
         \<and> ivalue (root st') = ivalue (root st)"
    by blast
next
  assume s: "siblings (listEntry st) p = Some ul"
  let ?st1 = "st\<lparr>listEntry := append_sibling p newNode_li (listEntry st)\<rparr>"
  have "addSibling pf (Item p) st = Returns (Item (butlast p @ [length ul])) (update pf ?st1)"
    using s by (rule addSibling_item)
  moreover have "\<forall>q. label_at (listEntry (update pf ?st1)) q =
       (if q = butlast p @ [length ul] then Some [] else label_at (listEntry st) q)"
    using label_at_append_sibling[OF s, of newNode_li]
    by (simp add: label_at_update newNode_li_def newNode_input_def)
  moreover have "ivalue (root (update pf ?st1)) = ivalue (root st)"
    by (simp add: root_update)
  ultimately show "\<exists>st'. addSibling pf (Item p) st = Returns (Item (butlast p @ [length ul])) st'
           \<and> (\<forall>q. label_at (listEntry st') q =
                    (if q = butlast p @ [length ul] then Some [] else label_at (listEntry st) q))
           \<and> ivalue (root st') = ivalue (root st)"
    by blast
qed

theorem addSibling_guarded_witness:
  "siblings (listEntry project_page) [0, 0] = Some [labelled ''index.js'']
   \<and> (\<exists>st'. addSibling prefix_init (Item [0, 0]) project_page = Returns (Item [0, 1]) st'
         \<and> label_at (listEntry st') [0, 1] = Some []
         \<and> label_at (listEntry st') [0, 0] = Some ''index.js''
         \<and> label_at (listEntry st') [0] = Some ''src''
         \<and> label_at (listEntry st') [1] = Some ''README.md'')
   \<and> addSiblingDisplay (u_positionContextMenu (Item []) project_page) = Some ''none''
   \<and> addSiblingDisplay (u_positionContextMenu (Item [0, 0]) project_page) = None"
proof -
  have s: "siblings (listEntry project_page) [0, 0] = Some [labelled ''index.js'']"
    by (simp add: project_page_def project_tree_def appendChild_def labelled_def)
  have l: "label_at (listEntry project_page) [0, 0] = Some ''index.js''"
     "label_at (listEntry project_page) [0] = Some ''src''"
     "label_at (listEntry project_page) [1] = Some ''README.md''"
    by (simp_all add: label_at_def project_page_def project_tree_def appendChild_def labelled_def)
  from addSibling_guarded[of "Item [0, 0]" project_page prefix_init "[0, 0]" "[labelled ''index.js'']"] s
  obtain st' where st': "addSibling prefix_init (Item [0, 0]) project_page = Returns (Item ([0] @ [1])) st'"
     "\<forall>q. label_at (listEntry st') q =
        (if q = [0] @ [1] then Some [] else label_at (listEntry project_page) q)"
    by auto
  have "label_at (listEntry st') [0, 1] = Some []"
       "label_at (listEntry st') [0, 0] = Some ''index.js''"
       "label_at (listEntry st') [0] = Some ''src''"
       "label_at (listEntry st') [1] = Some ''README.md''"
    using st'(2) l by simp_all
  moreover have "addSiblingDisplay (u_positionContextMenu (Item []) project_page) = Some ''none''"
    "addSiblingDisplay (u_positionContextMenu (Item [0, 0]) project_page) = None"
    using addSibling_guarded[of "Item []" project_page prefix_init "[0, 0]" "[labelled ''index.js'']"]
          addSibling_guarded[of "Item [0, 0]" project_page prefix_init "[0, 0]" "[labelled ''index.js'']"]
    by simp_all
  ultimately show ?thesis using s st'(1) by auto
qed

text \<open>
  C9.  For every page, \<^verbatim>\<open>clear()\<close> leaves \<^verbatim>\<open>#listEntry\<close> without children, and the
  root's item is still there with its input (and so its label) as it was.
\<close>

theorem clear_keeps_root:
  "listEntry (clear st) = [] \<and> root (clear st) = root st
   \<and> rootItem (clear st) = LI (root st) (rootClass st) None (Some [])"
  using clear_fields[of st] by (simp add: rootItem_def)

theorem clear_keeps_root_witness:
  "listEntry project_page \<noteq> [] \<and> listEntry (clear project_page) = []
   \<and> ivalue (root (clear project_page)) = ''project''"
  using clear_keeps_root[of project_page]
  by (simp add: project_page_def project_tree_def newNode_input_def)

text \<open>
  C10.  Rendering changes nothing but \<^verbatim>\<open>dataset.prefix\<close>: the page after it is the page
  before it with items that agree in input, class, children and order; the export of
  the rendered page is the export of the page (the export itself is a string and has
  no page to change).  The prefix of a node depends only on which of the nodes on its
  path are last in their lists: two trees in which the node's path exists and these
  flags agree give it the same prefix, whatever the other subtrees hold.
\<close>

theorem prefix_run_frame:
  "(\<exists>L. render pf st = st\<lparr>listEntry := L\<rparr> \<and> unprefixed L = unprefixed (listEntry st))
   \<and> toString pf (render pf st) = toString pf st
   \<and> (item_at f1 p \<noteq> None \<and> item_at f2 p \<noteq> None
        \<and> (\<forall>k. 0 < k \<and> k \<le> length p \<longrightarrow>
               is_last_child f1 (take k p) = is_last_child f2 (take k p))
       \<longrightarrow> map_of (computePrefixes pf f1) p = map_of (computePrefixes pf f2) p)"
proof (intro conjI impI)
  have "render pf st = st\<lparr>listEntry := listEntry (render pf st)\<rparr>" by (simp add: render_def)
  then show "\<exists>L. render pf st = st\<lparr>listEntry := L\<rparr> \<and> unprefixed L = unprefixed (listEntry st)"
    using unprefixed_render[of pf st] by blast
next
  show "toString pf (render pf st) = toString pf st"
    by (rule toString_cong) (simp_all add: unprefixed_render, simp add: render_def)
next
  assume a: "item_at f1 p \<noteq> None \<and> item_at f2 p \<noteq> None
        \<and> (\<forall>k. 0 < k \<and> k \<le> length p \<longrightarrow>
               is_last_child f1 (take k p) = is_last_child f2 (take k p))"
  then have ne: "p \<noteq> []" by auto
  have own: "is_last_child f1 p = is_last_child f2 p"
    using a ne by (metis length_greater_0_conv order_refl take_all)
  have anc: "is_last_child f1 x = is_last_child f2 x" if "x \<in> set (ancestors p)" for x
    using a ancestors_take[OF that] by auto
  have "prefix_of pf f1 p = prefix_of pf f2 p"
    using a own anc by (simp add: prefix_of_closed cong: map_cong)
  then show "map_of (computePrefixes pf f1) p = map_of (computePrefixes pf f2) p"
    using a by (simp add: map_of_computePrefixes)
qed

theorem prefix_run_frame_witness:
  "unprefixed (listEntry (render prefix_init project_page)) = unprefixed project_tree
   \<and> toString prefix_init (render prefix_init project_page) = toString prefix_init project_page
   \<and> item_at project_tree [1] \<noteq> None \<and> item_at two_leaves [1] \<noteq> None
   \<and> is_last_child project_tree [1] \<and> is_last_child two_leaves [1]
   \<and> map_of (computePrefixes prefix_init project_tree) [1]
       = map_of (computePrefixes prefix_init two_leaves) [1]"
proof -
  have v: "item_at project_tree [1] \<noteq> None" "item_at two_leaves [1] \<noteq> None"
    by (simp_all add: project_tree_def two_leaves_def)
  have l: "is_last_child project_tree [1]" "is_last_child two_leaves [1]"
    by (simp_all add: is_last_child_def project_tree_def two_leaves_def)
  have k: "\<forall>k. 0 < k \<and> k \<le> length [1::nat] \<longrightarrow>
             is_last_child project_tree (take k [1]) = is_last_child two_leaves (take k [1])"
    using l by (auto simp: take_Cons')
  obtain L where L: "render prefix_init project_page = project_page\<lparr>listEntry := L\<rparr>"
      "unprefixed L = unprefixed (listEntry project_page)"
    using prefix_run_frame[of prefix_init project_page project_tree "[1]" two_leaves] by blast
  have "map_of (computePrefixes prefix_init project_tree) [1]
       = map_of (computePrefixes prefix_init two_leaves) [1]"
    using prefix_run_frame[of prefix_init project_page project_tree "[1]" two_leaves] v k by blast
  moreover have "toString prefix_init (render prefix_init project_page) = toString prefix_init project_page"
    using prefix_run_frame[of prefix_init project_page project_tree "[1]" two_leaves] by blast
  moreover have "unprefixed (listEntry (render prefix_init project_page)) = unprefixed project_tree"
    using L by (simp add: project_page_def)
  ultimately show ?thesis using v l by blast
qed
end
